theory Spec2Isabelle
  imports Main "HOL-Library.Sublist" "HOL-Library.Multiset"
begin

section \<open>String operations of the host language used by the release driver\<close>

text \<open>
  A text of the host language is a sequence of code units, here a \<open>string\<close>; the
  operations below look at single units only, of which \<open>%\<close>, \<open>s\<close> and \<open>$\<close> matter.

  \<open>String.prototype.includes\<close>: does \<open>search\<close> occur somewhere in \<open>str\<close>.
\<close>

fun includesStr :: "string \<Rightarrow> string \<Rightarrow> bool" where
  "includesStr [] search = (search = [])"
| "includesStr (c # cs) search = (prefix search (c # cs) \<or> includesStr cs search)"

text \<open>
  \<open>GetSubstitution\<close> of ECMAScript for a string pattern (no captures, no named groups):
  in the replacement text \<open>$$\<close> stands for a dollar sign, \<open>$&\<close> for the matched text,
  \<open>$`\<close> for the text preceding the match and \<open>$'\<close> for the text following it; a dollar sign
  followed by anything else (digits and \<open>$<\<close> included, as there are no captures) is kept
  as it is.
\<close>

fun GetSubstitution :: "string \<Rightarrow> string \<Rightarrow> string \<Rightarrow> string \<Rightarrow> string" where
  "GetSubstitution matched preceding following [] = []"
| "GetSubstitution matched preceding following [c] = [c]"
| "GetSubstitution matched preceding following (c # d # t) =
     (if c = CHR ''$'' \<and> d = CHR ''$'' then CHR ''$'' # GetSubstitution matched preceding following t
      else if c = CHR ''$'' \<and> d = CHR 0x60 then preceding @ GetSubstitution matched preceding following t
      else if c = CHR ''$'' \<and> d = CHR ''&'' then matched @ GetSubstitution matched preceding following t
      else if c = CHR ''$'' \<and> d = CHR 0x27 then following @ GetSubstitution matched preceding following t
      else c # GetSubstitution matched preceding following (d # t))"

text \<open>
  \<open>String.prototype.replaceAll\<close> with a string pattern. The matches are found from left
  to right and do not overlap (the search resumes behind a match); \<open>preceding\<close> is the part
  of the whole string that has been passed. For the empty pattern there is a match at
  every position, the end included.
\<close>

function replaceAll_from :: "string \<Rightarrow> string \<Rightarrow> string \<Rightarrow> string \<Rightarrow> string" where
  "replaceAll_from search repl preceding [] =
     (if search = [] then GetSubstitution [] preceding [] repl else [])"
| "replaceAll_from search repl preceding (c # cs) =
     (if search = [] then
        GetSubstitution [] preceding (c # cs) repl @ c # replaceAll_from search repl (preceding @ [c]) cs
      else if prefix search (c # cs) then
        GetSubstitution search preceding (drop (length search) (c # cs)) repl
          @ replaceAll_from search repl (preceding @ search) (drop (length search) (c # cs))
      else c # replaceAll_from search repl (preceding @ [c]) cs)"
  by pat_completeness auto
termination
  by (relation "measure (\<lambda>(search, repl, preceding, str). length str)") auto

definition replaceAll :: "string \<Rightarrow> string \<Rightarrow> string \<Rightarrow> string" where
  "replaceAll str search repl = replaceAll_from search repl [] str"

text \<open>\<open>App.formatMessageString\<close>.\<close>

definition formatMessageString :: "string \<Rightarrow> string \<Rightarrow> string" where
  "formatMessageString template nextVersion =
     (if includesStr template ''%s'' then replaceAll template ''%s'' nextVersion
      else template @ nextVersion)"

text \<open>The pieces of a text put together with a separator between them.\<close>

fun join :: "string \<Rightarrow> string list \<Rightarrow> string" where
  "join sep [] = []"
| "join sep [x] = x"
| "join sep (x # y # ys) = x @ sep @ join sep (y # ys)"

section \<open>Data model\<close>

text \<open>
  Modelled from the spec: the declaration of \<open>ProjectFile\<close>, a discovered manifest, is
  part of the \<open>cross-bump\<close> package, which is not among the sources. The driver reads
  its \<open>path\<close> and its \<open>category\<close> only.
\<close>

record ProjectFile =
  path :: string
  category :: string

datatype Status = Pending | Running | Failed | Finished

text \<open>
  Modelled from the spec: the declaration of \<open>ReleaseOptions\<close> (\<open>./types\<close>) is not among
  the sources. The driver reads the fields below. A step option (\<open>commit\<close>, \<open>tag\<close>,
  \<open>push\<close>) may be absent (\<open>None\<close>, the host language's \<open>undefined\<close>) or hold a boolean;
  the source tests it for truthiness only.
\<close>

record ReleaseOptions =
  dir :: string
  excludes :: "string list"
  recursive :: bool
  main :: string
  version :: "string option"
  dry :: bool
  yes :: bool
  commit :: "bool option"
  tag :: "bool option"
  push :: "bool option"

definition truthy :: "bool option \<Rightarrow> bool" where
  "truthy v = (v = Some True)"

text \<open>The keys \<open>confirmAndSet\<close> is called with (\<open>ExtractBooleanKeys<ReleaseOptions>\<close>).\<close>

datatype StepName = CommitStep | TagStep | PushStep

fun getOpt :: "StepName \<Rightarrow> ReleaseOptions \<Rightarrow> bool option" where
  "getOpt CommitStep opts = commit opts"
| "getOpt TagStep opts = tag opts"
| "getOpt PushStep opts = push opts"

fun setOpt :: "StepName \<Rightarrow> bool option \<Rightarrow> ReleaseOptions \<Rightarrow> ReleaseOptions" where
  "setOpt CommitStep v opts = opts\<lparr>commit := v\<rparr>"
| "setOpt TagStep v opts = opts\<lparr>tag := v\<rparr>"
| "setOpt PushStep v opts = opts\<lparr>push := v\<rparr>"

text \<open>What \<open>resolveAltOptions\<close> yields for the commit step and for the push step.\<close>

record CommitAlt =
  stageAll :: bool
  template :: string
  verify :: bool

record PushAlt =
  followTags :: bool

text \<open>
  Modelled from the spec: the exit codes (\<open>./exitCode\<close>) are not among the sources. The
  spec names a normal finish, a code for setup failures and a dedicated code for a
  cancellation; the driver uses the last, \<open>ExitCode.Canceled\<close>.
\<close>

datatype ExitCode = Success | FatalError | Canceled

text \<open>The result of an interactive prompt: the cancel symbol, or the operator's answer.\<close>

datatype 'a PromptResult = Cancelled | Answer 'a

text \<open>
  A task is a name and a closure. The closures are represented by what they are and by the
  constants they captured when they were built; everything they read from \<open>this\<close> is read
  from the state when they run (see \<open>exec\<close> below).
\<close>

datatype Task =
    UpgradeVersionTask string "ProjectFile list" string
      \<comment> \<open>captured: \<open>nextVersion\<close>, \<open>projectFiles\<close>, \<open>dir\<close>\<close>
  | CommitTask bool string bool bool
      \<comment> \<open>captured: \<open>dry\<close>, \<open>message\<close>, \<open>stageAll\<close>, \<open>verify\<close>\<close>
  | TagTask bool string string
      \<comment> \<open>captured: \<open>dry\<close>, \<open>message\<close>, \<open>tagName\<close>\<close>
  | PushTask bool
      \<comment> \<open>captured: \<open>dry\<close>\<close>

fun name :: "Task \<Rightarrow> string" where
  "name (UpgradeVersionTask v fs d) = ''upgradeVersion''"
| "name (CommitTask d m a v) = ''commit''"
| "name (TagTask d m t) = ''tag''"
| "name (PushTask d) = ''push''"

text \<open>
  What the run does to the outside world, in the order in which it does it: the calls of
  the collaborators with their arguments, and the console output.
\<close>

datatype Event =
    Intro string
  | DryRunBanner
  | FindProjectFilesCall string "string list" "bool option"
      \<comment> \<open>the third argument is \<open>None\<close> when the call leaves it out\<close>
  | GetProjectVersionCall ProjectFile
  | IsVersionValidCall "string option"
  | ChooseVersionCall string
  | ConfirmCall string
  | CancelNotice string
  | UpgradeCall string ProjectFile
  | UpgradeMessage string ProjectFile
  | LogError string
  | GitCommitCall bool string "string list" bool bool
      \<comment> \<open>\<open>dry\<close>, \<open>message\<close>, \<open>modifiedFiles\<close>, \<open>stageAll\<close>, \<open>verify\<close>\<close>
  | GitTagCall bool string string
      \<comment> \<open>\<open>dry\<close>, \<open>message\<close>, \<open>tagName\<close>\<close>
  | GitPushCall bool bool
      \<comment> \<open>\<open>dry\<close>, \<open>followTags\<close>\<close>
  | Outro string

text \<open>
  The fields of the class \<open>App\<close>, and beside them the two parts of the process the run
  writes to: the trace of events and the environment variable \<open>DRY\<close>.
\<close>

record App =
  currentVersion :: string
  modifiedFiles :: "string list"
  nextVersion :: string
  options :: ReleaseOptions
  taskQueue :: "Task list"
  taskStatus :: Status
  trace :: "Event list"
  envDRY :: "string option"

text \<open>
  The collaborators, whose code lies outside the driver: project-file discovery and the
  version field of a manifest (\<open>cross-bump\<close>), the prompts, the version-control calls and
  \<open>resolveAltOptions\<close>. Each is a parameter; every theorem below holds for all of them.
  \<open>upgradeProjectVersion\<close> yields \<open>None\<close> when the write succeeds and the error it raises
  otherwise. \<open>completionTime\<close> is the moment at which the write started for the file at a
  given position completes: the writes of the fan-out are started together and their
  continuations run in the order of completion.
\<close>

record Env =
  findProjectFiles :: "string \<Rightarrow> string list \<Rightarrow> bool option \<Rightarrow> ProjectFile list"
  getProjectVersion :: "ProjectFile \<Rightarrow> string option"
  isVersionValid :: "string \<Rightarrow> bool"
  chooseVersion :: "string \<Rightarrow> string PromptResult"
  confirm :: "string \<Rightarrow> bool PromptResult"
  upgradeProjectVersion :: "string \<Rightarrow> ProjectFile \<Rightarrow> string option"
  completionTime :: "nat \<Rightarrow> nat"
  gitCommit :: "bool \<Rightarrow> string \<Rightarrow> string list \<Rightarrow> bool \<Rightarrow> bool \<Rightarrow> bool"
  gitTag :: "bool \<Rightarrow> string \<Rightarrow> string \<Rightarrow> bool"
  gitPush :: "bool \<Rightarrow> bool \<Rightarrow> bool"
  resolveAltCommit :: "ReleaseOptions \<Rightarrow> CommitAlt"
  resolveAltPush :: "ReleaseOptions \<Rightarrow> PushAlt"

text \<open>
  How a step of the run ends: it returns, the process exits (\<open>process.exit\<close>), or an error
  is thrown. Each carries the state reached.
\<close>

datatype 'a Result = Ok 'a App | Exit ExitCode App | Throw string App

fun appOf :: "'a Result \<Rightarrow> App" where
  "appOf (Ok x s) = s"
| "appOf (Exit c s) = s"
| "appOf (Throw e s) = s"

section \<open>The operations of the class \<open>App\<close>\<close>

definition newApp :: "ReleaseOptions \<Rightarrow> App" where
  "newApp opts =
     \<lparr>currentVersion = [], modifiedFiles = [], nextVersion = [], options = opts,
      taskQueue = [], taskStatus = Pending, trace = [], envDRY = None\<rparr>"

definition emit :: "Event \<Rightarrow> App \<Rightarrow> App" where
  "emit e s = s\<lparr>trace := trace s @ [e]\<rparr>"

text \<open>
  \<open>handleUserCancel\<close>: the answer is handed back unless it is the cancel symbol; then the
  process exits with \<open>ExitCode.Canceled\<close>.
\<close>

fun handleUserCancel :: "'a PromptResult \<Rightarrow> App \<Rightarrow> 'a Result" where
  "handleUserCancel Cancelled s = Exit Canceled (emit (CancelNotice ''User cancel'') s)"
| "handleUserCancel (Answer r) s = Ok r s"

text \<open>\<open>#addTask\<close>: appends, and tells whether the queue grew by one.\<close>

definition addTask :: "Task \<Rightarrow> App \<Rightarrow> bool \<times> App" where
  "addTask task s =
     (let expect = length (taskQueue s) + 1;
          q = taskQueue s @ [task]
      in (length q = expect, s\<lparr>taskQueue := q\<rparr>))"

definition check :: "bool \<Rightarrow> App \<Rightarrow> App" where
  "check status s = (if \<not> status then s\<lparr>taskStatus := Failed\<rparr> else s)"

definition checkDryRun :: "App \<Rightarrow> App" where
  "checkDryRun s =
     (if dry (options s) then (emit DryRunBanner s)\<lparr>envDRY := Some ''true''\<rparr> else s)"

definition start :: "App \<Rightarrow> App" where
  "start s = (checkDryRun (emit (Intro ''Cross release'') s))\<lparr>taskStatus := Running\<rparr>"

definition doneApp :: "App \<Rightarrow> App" where
  "doneApp s = (emit (Outro ''Done'') s)\<lparr>taskStatus := Finished\<rparr>"

text \<open>
  Modelled from the spec: \<open>isVersionValid\<close> belongs to \<open>cross-bump\<close>, which is not among the
  sources. By the spec the explicit version is taken when it is supplied and passes the
  validation; what passes is the parameter \<open>isVersionValid\<close> of the collaborators, and a
  version that was not supplied does not.
\<close>

definition validVersion :: "Env \<Rightarrow> string option \<Rightarrow> string option" where
  "validVersion env v =
     (case v of None \<Rightarrow> None | Some x \<Rightarrow> if isVersionValid env x then Some x else None)"

text \<open>
  \<open>#getNextVersion\<close>. The discovery call passes the directory and the exclusion patterns
  and no third argument.
\<close>

definition getNextVersion :: "Env \<Rightarrow> App \<Rightarrow> unit Result" where
  "getNextVersion env s =
     (let opts = options s;
          s1 = emit (FindProjectFilesCall (dir opts) (excludes opts) None) s;
          projectFiles = findProjectFiles env (dir opts) (excludes opts) None
      in if length projectFiles = 0 then
           Throw ''can't found any project file in the project root'' s1
         else
           case find (\<lambda>file. category file = main (options s1)) projectFiles of
             None \<Rightarrow>
               Throw (''can't found '' @ main (options s1) @ '' project file in the project root'') s1
           | Some mainProjectFile \<Rightarrow>
               let s2 = emit (GetProjectVersionCall mainProjectFile) s1;
                   projectVersion = getProjectVersion env mainProjectFile;
                   s3 = s2\<lparr>currentVersion := (case projectVersion of None \<Rightarrow> [] | Some v \<Rightarrow> v)\<rparr>;
                   s4 = emit (IsVersionValidCall (version opts)) s3
               in case validVersion env (version opts) of
                    Some v \<Rightarrow> Ok () (s4\<lparr>nextVersion := v\<rparr>)
                  | None \<Rightarrow>
                      (case handleUserCancel (chooseVersion env (currentVersion s4))
                              (emit (ChooseVersionCall (currentVersion s4)) s4) of
                         Ok nextVersion' s5 \<Rightarrow> Ok () (s5\<lparr>nextVersion := nextVersion'\<rparr>)
                       | Exit c s5 \<Rightarrow> Exit c s5
                       | Throw e s5 \<Rightarrow> Throw e s5))"

text \<open>
  \<open>#getProjects\<close>: discovers again, this time passing the \<open>recursive\<close> option, and queues
  the version-update task, which captures the files found and the next version.
\<close>

definition getProjects :: "Env \<Rightarrow> App \<Rightarrow> App" where
  "getProjects env s =
     (let opts = options s;
          isRecursive = recursive opts;
          s1 = emit (FindProjectFilesCall (dir opts) (excludes opts) (Some isRecursive)) s;
          projectFiles = findProjectFiles env (dir opts) (excludes opts) (Some isRecursive)
      in snd (addTask (UpgradeVersionTask (nextVersion s) projectFiles (dir opts)) s1))"

text \<open>
  The body of the version-update task for one file, behind its \<open>await\<close>: on success the
  path is pushed and the progress line printed; the error of a failed write is caught,
  the status set to failed and the error logged.
\<close>

definition settle :: "Env \<Rightarrow> string \<Rightarrow> ProjectFile \<Rightarrow> App \<Rightarrow> App" where
  "settle env v projectFile s =
     (case upgradeProjectVersion env v projectFile of
        None \<Rightarrow> emit (UpgradeMessage v projectFile)
                  (s\<lparr>modifiedFiles := modifiedFiles s @ [path projectFile]\<rparr>)
      | Some err \<Rightarrow> emit (LogError err) (s\<lparr>taskStatus := Failed\<rparr>))"

text \<open>
  The order in which the writes of the fan-out complete: the files with their positions,
  by completion time.
\<close>

definition completionOrder :: "Env \<Rightarrow> ProjectFile list \<Rightarrow> (nat \<times> ProjectFile) list" where
  "completionOrder env projectFiles =
     sort_key (\<lambda>p. completionTime env (fst p)) (enumerate 0 projectFiles)"

text \<open>
  The action of a task. The version-update task maps over the files: every write is
  started, in the order of the list, then \<open>Promise.all\<close> waits for all of them while each
  continuation runs when its write completes. The other three call the version-control
  collaborator and hand its answer to \<open>#check\<close>; the commit reads \<open>modifiedFiles\<close> and the
  push resolves its options when it runs.
\<close>

fun exec :: "Env \<Rightarrow> Task \<Rightarrow> App \<Rightarrow> App" where
  "exec env (UpgradeVersionTask v projectFiles d) s =
     fold (\<lambda>p. settle env v (snd p)) (completionOrder env projectFiles)
       (fold (\<lambda>projectFile. emit (UpgradeCall v projectFile)) projectFiles s)"
| "exec env (CommitTask dr message sa vf) s =
     check (gitCommit env dr message (modifiedFiles s) sa vf)
       (emit (GitCommitCall dr message (modifiedFiles s) sa vf) s)"
| "exec env (TagTask dr message tagName) s =
     check (gitTag env dr message tagName) (emit (GitTagCall dr message tagName) s)"
| "exec env (PushTask dr) s =
     (let ft = followTags (resolveAltPush env (options s))
      in check (gitPush env dr ft) (emit (GitPushCall dr ft) s))"

text \<open>
  \<open>confirmAndSet\<close>, the gate of one optional step. \<open>yes\<close> was read from the options when
  \<open>#confirmReleaseOptions\<close> began.
\<close>

definition confirmAndSet :: "Env \<Rightarrow> bool \<Rightarrow> StepName \<Rightarrow> string \<Rightarrow> Task \<Rightarrow> App \<Rightarrow> unit Result" where
  "confirmAndSet env y nm message task s =
     (let r =
        (if y then Ok () (s\<lparr>options := setOpt nm (Some True) (options s)\<rparr>)
         else if \<not> truthy (getOpt nm (options s)) then
           (case handleUserCancel (confirm env message) (emit (ConfirmCall message) s) of
              Ok confirmation s1 \<Rightarrow>
                Ok () (s1\<lparr>options := setOpt nm (Some confirmation) (options s1)\<rparr>)
            | Exit c s1 \<Rightarrow> Exit c s1
            | Throw e s1 \<Rightarrow> Throw e s1)
         else Ok () s)
      in case r of
           Ok u s2 \<Rightarrow>
             if truthy (getOpt nm (options s2)) then Ok () (snd (addTask task s2)) else Ok () s2
         | Exit c s2 \<Rightarrow> Exit c s2
         | Throw e s2 \<Rightarrow> Throw e s2)"

text \<open>\<open>#confirmReleaseOptions\<close>: the gates of commit, tag and push, in this order.\<close>

definition confirmReleaseOptions :: "Env \<Rightarrow> App \<Rightarrow> unit Result" where
  "confirmReleaseOptions env s =
     (let dr = dry (options s);
          y = yes (options s);
          alt = resolveAltCommit env (options s);
          message = formatMessageString (template alt) (nextVersion s)
      in case confirmAndSet env y CommitStep ''should commit?''
                (CommitTask dr message (stageAll alt) (verify alt)) s of
           Exit c s1 \<Rightarrow> Exit c s1
         | Throw e s1 \<Rightarrow> Throw e s1
         | Ok u s1 \<Rightarrow>
             let tagName = ''v'' @ nextVersion s1
             in case confirmAndSet env y TagStep ''should create tag?''
                       (TagTask dr message tagName) s1 of
                  Exit c s2 \<Rightarrow> Exit c s2
                | Throw e s2 \<Rightarrow> Throw e s2
                | Ok u s2 \<Rightarrow>
                    confirmAndSet env y PushStep ''should push to remote?'' (PushTask dr) s2)"

text \<open>
  The loop of \<open>run\<close>: before each task the status is looked at; a failed status ends the
  loop, otherwise the task's action runs to its end.
\<close>

fun runAll :: "Env \<Rightarrow> Task list \<Rightarrow> App \<Rightarrow> App" where
  "runAll env [] s = s"
| "runAll env (task # rest) s =
     (if taskStatus s = Failed then s else runAll env rest (exec env task s))"

text \<open>
  The run up to the loop: start, version resolution, discovery and queueing of the update,
  the gates.
\<close>

definition prepare :: "Env \<Rightarrow> ReleaseOptions \<Rightarrow> unit Result" where
  "prepare env opts =
     (case getNextVersion env (start (newApp opts)) of
        Exit c s \<Rightarrow> Exit c s
      | Throw e s \<Rightarrow> Throw e s
      | Ok u s1 \<Rightarrow> confirmReleaseOptions env (getProjects env s1))"

text \<open>The run up to the end of the loop, before \<open>#done\<close>.\<close>

definition execute :: "Env \<Rightarrow> ReleaseOptions \<Rightarrow> unit Result" where
  "execute env opts =
     (case prepare env opts of
        Exit c s \<Rightarrow> Exit c s
      | Throw e s \<Rightarrow> Throw e s
      | Ok u s \<Rightarrow> Ok () (runAll env (taskQueue s) s))"

text \<open>\<open>App.run\<close> on a new \<open>App\<close> built from the options.\<close>

definition run :: "Env \<Rightarrow> ReleaseOptions \<Rightarrow> unit Result" where
  "run env opts =
     (case execute env opts of
        Exit c s \<Rightarrow> Exit c s
      | Throw e s \<Rightarrow> Throw e s
      | Ok u s \<Rightarrow> Ok () (doneApp s))"

text \<open>The state a step returned with, if it returned.\<close>

fun returned :: "'a Result \<Rightarrow> App option" where
  "returned (Ok x s) = Some s"
| "returned (Exit c s) = None"
| "returned (Throw e s) = None"

section \<open>Reading the trace\<close>

text \<open>The kinds of events the claims speak about.\<close>

fun isGitCall :: "Event \<Rightarrow> bool" where
  "isGitCall (GitCommitCall d m fs a v) = True"
| "isGitCall (GitTagCall d m t) = True"
| "isGitCall (GitPushCall d f) = True"
| "isGitCall e = False"

fun isUpgradeCall :: "Event \<Rightarrow> bool" where
  "isUpgradeCall (UpgradeCall v f) = True"
| "isUpgradeCall e = False"

fun isConfirmCall :: "Event \<Rightarrow> bool" where
  "isConfirmCall (ConfirmCall m) = True"
| "isConfirmCall e = False"

fun isFindCall :: "Event \<Rightarrow> bool" where
  "isFindCall (FindProjectFilesCall d e r) = True"
| "isFindCall e = False"

fun isValidCall :: "Event \<Rightarrow> bool" where
  "isValidCall (IsVersionValidCall v) = True"
| "isValidCall e = False"

text \<open>
  The step a version-control call belongs to, under the name of its task; and the tasks
  that make such a call.
\<close>

fun stepOf :: "Event \<Rightarrow> string" where
  "stepOf (GitCommitCall d m fs a v) = ''commit''"
| "stepOf (GitTagCall d m t) = ''tag''"
| "stepOf (GitPushCall d f) = ''push''"
| "stepOf e = []"

fun isGitTask :: "Task \<Rightarrow> bool" where
  "isGitTask (UpgradeVersionTask v fs d) = False"
| "isGitTask t = True"

text \<open>Collaborators whose version-control calls succeed whatever they are called with.\<close>

definition gitSucceeds :: "Env \<Rightarrow> bool" where
  "gitSucceeds env =
     ((\<forall>d m fs a v. gitCommit env d m fs a v) \<and> (\<forall>d m t. gitTag env d m t) \<and>
      (\<forall>d f. gitPush env d f))"

text \<open>A stretch of the trace without collaborator calls other than prompts.\<close>

definition quiet :: "Event list \<Rightarrow> bool" where
  "quiet es = (filter isGitCall es = [] \<and> filter isUpgradeCall es = [] \<and>
               filter isFindCall es = [] \<and> filter isValidCall es = [])"

text \<open>
  An event agrees with an explicit version option \<open>ver\<close>, a message \<open>m\<close> and a next
  version \<open>nv\<close> when it passes these and no others; likewise a task, for what it captured.
\<close>

definition agrees :: "string option \<Rightarrow> string \<Rightarrow> string \<Rightarrow> Event \<Rightarrow> bool" where
  "agrees ver m nv e =
     (case e of
        GitCommitCall d m' fs a v \<Rightarrow> m' = m
      | GitTagCall d m' t \<Rightarrow> m' = m \<and> t = ''v'' @ nv
      | UpgradeCall v f \<Rightarrow> v = nv
      | IsVersionValidCall x \<Rightarrow> x = ver
      | _ \<Rightarrow> True)"

fun taskAgrees :: "string \<Rightarrow> string \<Rightarrow> Task \<Rightarrow> bool" where
  "taskAgrees m nv (UpgradeVersionTask v fs d) = (v = nv)"
| "taskAgrees m nv (CommitTask d m' a v) = (m' = m)"
| "taskAgrees m nv (TagTask d m' t) = (m' = m \<and> t = ''v'' @ nv)"
| "taskAgrees m nv (PushTask d) = True"

section \<open>Example inputs\<close>

text \<open>
  A repository with three manifests, of which \<open>package.json\<close> is the main one, and
  collaborators that answer every prompt with yes and let every version-control call
  succeed. The write to \<open>Cargo.toml\<close> fails. The writes complete in the reverse of the
  order in which they were started.
\<close>

definition pkg :: ProjectFile where
  "pkg = \<lparr>path = ''package.json'', category = ''javascript''\<rparr>"

definition cargo :: ProjectFile where
  "cargo = \<lparr>path = ''Cargo.toml'', category = ''rust''\<rparr>"

definition pom :: ProjectFile where
  "pom = \<lparr>path = ''pom.xml'', category = ''java''\<rparr>"

definition envFail :: Env where
  "envFail =
     \<lparr>findProjectFiles = (\<lambda>d e r. [pkg, cargo, pom]),
      getProjectVersion = (\<lambda>f. Some ''1.0.0''),
      isVersionValid = (\<lambda>v. v = ''2.1.0''),
      chooseVersion = (\<lambda>c. Answer ''next''),
      confirm = (\<lambda>m. Answer True),
      upgradeProjectVersion = (\<lambda>v f. if path f = ''Cargo.toml'' then Some ''EACCES'' else None),
      completionTime = (\<lambda>i. 10 - i),
      gitCommit = (\<lambda>d m fs a v. True),
      gitTag = (\<lambda>d m t. True),
      gitPush = (\<lambda>d f. True),
      resolveAltCommit = (\<lambda>opts. \<lparr>stageAll = False, template = ''chore: release v%s'', verify = True\<rparr>),
      resolveAltPush = (\<lambda>opts. \<lparr>followTags = True\<rparr>)\<rparr>"

text \<open>The same with every write succeeding.\<close>

definition envGood :: Env where
  "envGood = envFail\<lparr>upgradeProjectVersion := (\<lambda>v f. None)\<rparr>"

text \<open>The same with every confirmation cancelled.\<close>

definition envCancel :: Env where
  "envCancel = envGood\<lparr>confirm := (\<lambda>m. Cancelled)\<rparr>"

text \<open>
  The same where the recursive discovery finds all three manifests and any other finds
  \<open>package.json\<close> alone.
\<close>

definition envDeep :: Env where
  "envDeep = envGood\<lparr>findProjectFiles := (\<lambda>d e r. if r = Some True then [pkg, cargo, pom] else [pkg])\<rparr>"

text \<open>The same as \<open>envGood\<close> with the operator declining the push and agreeing to the rest.\<close>

definition envNoPush :: Env where
  "envNoPush =
     envGood\<lparr>confirm := (\<lambda>m. if m = ''should push to remote?'' then Answer False else Answer True)\<rparr>"

text \<open>Options with an explicit valid version and all steps authorised by \<open>--yes\<close>.\<close>

definition optsYes :: ReleaseOptions where
  "optsYes =
     \<lparr>dir = ''.'', excludes = [], recursive = True, main = ''javascript'',
      version = Some ''2.1.0'', dry = False, yes = True,
      commit = None, tag = None, push = None\<rparr>"

text \<open>
  Options without \<open>--yes\<close>, with an explicit version that is not valid, the commit step set
  to false and the tag step set to true.
\<close>

definition optsAsk :: ReleaseOptions where
  "optsAsk = optsYes\<lparr>version := Some ''x'', yes := False, commit := Some False, tag := Some True\<rparr>"

section \<open>Basic facts about the operations\<close>

lemma emit_fields [simp]:
  "trace (emit e s) = trace s @ [e]"
  "taskStatus (emit e s) = taskStatus s"
  "taskQueue (emit e s) = taskQueue s"
  "modifiedFiles (emit e s) = modifiedFiles s"
  "options (emit e s) = options s"
  "nextVersion (emit e s) = nextVersion s"
  "currentVersion (emit e s) = currentVersion s"
  by (simp_all add: emit_def)

lemma check_fields [simp]:
  "trace (check b s) = trace s"
  "taskQueue (check b s) = taskQueue s"
  "modifiedFiles (check b s) = modifiedFiles s"
  "options (check b s) = options s"
  "nextVersion (check b s) = nextVersion s"
  "taskStatus (check b s) = (if b then taskStatus s else Failed)"
  by (simp_all add: check_def)

lemma addTask_fields [simp]:
  "trace (snd (addTask t s)) = trace s"
  "taskStatus (snd (addTask t s)) = taskStatus s"
  "taskQueue (snd (addTask t s)) = taskQueue s @ [t]"
  "modifiedFiles (snd (addTask t s)) = modifiedFiles s"
  "options (snd (addTask t s)) = options s"
  "nextVersion (snd (addTask t s)) = nextVersion s"
  by (simp_all add: addTask_def Let_def)

lemma addTask_grows: "fst (addTask t s)"
  by (simp add: addTask_def Let_def)

lemma settle_fields [simp]:
  "taskQueue (settle env v f s) = taskQueue s"
  "options (settle env v f s) = options s"
  "nextVersion (settle env v f s) = nextVersion s"
  by (simp_all add: settle_def split: option.splits)

lemma settle_status:
  "taskStatus (settle env v f s) =
     (if upgradeProjectVersion env v f = None then taskStatus s else Failed)"
  by (simp add: settle_def split: option.splits)

lemma settle_modified:
  "modifiedFiles (settle env v f s) =
     modifiedFiles s @ (if upgradeProjectVersion env v f = None then [path f] else [])"
  by (simp add: settle_def split: option.splits)

lemma fold_emit_fields [simp]:
  "trace (fold (\<lambda>x. emit (g x)) xs s) = trace s @ map g xs"
  "taskStatus (fold (\<lambda>x. emit (g x)) xs s) = taskStatus s"
  "taskQueue (fold (\<lambda>x. emit (g x)) xs s) = taskQueue s"
  "modifiedFiles (fold (\<lambda>x. emit (g x)) xs s) = modifiedFiles s"
  "options (fold (\<lambda>x. emit (g x)) xs s) = options s"
  "nextVersion (fold (\<lambda>x. emit (g x)) xs s) = nextVersion s"
  by (induction xs arbitrary: s; simp)+

lemma fold_settle_fields [simp]:
  "taskQueue (fold (\<lambda>p. settle env v (snd p)) ps s) = taskQueue s"
  "options (fold (\<lambda>p. settle env v (snd p)) ps s) = options s"
  "nextVersion (fold (\<lambda>p. settle env v (snd p)) ps s) = nextVersion s"
  by (induction ps arbitrary: s; simp)+

lemma fold_settle_status:
  "taskStatus (fold (\<lambda>p. settle env v (snd p)) ps s) =
     (if \<exists>p \<in> set ps. upgradeProjectVersion env v (snd p) \<noteq> None then Failed else taskStatus s)"
  by (induction ps arbitrary: s) (auto simp: settle_status)

lemma fold_settle_modified:
  "modifiedFiles (fold (\<lambda>p. settle env v (snd p)) ps s) =
     modifiedFiles s @ map path (filter (\<lambda>f. upgradeProjectVersion env v f = None) (map snd ps))"
  by (induction ps arbitrary: s) (auto simp: settle_modified)

lemma completionOrder_mset:
  "mset (map snd (completionOrder env fs)) = mset fs"
proof -
  have "mset (map snd (completionOrder env fs)) = mset (map snd (enumerate 0 fs))"
    unfolding completionOrder_def mset_map mset_sort ..
  then show ?thesis by (simp only: map_snd_enumerate)
qed

lemma completionOrder_set: "snd ` set (completionOrder env fs) = set fs"
  using completionOrder_mset [of env fs] by (metis set_map set_mset_mset)

lemma runAll_Failed: "taskStatus s = Failed \<Longrightarrow> runAll env q s = s"
  by (cases q) simp_all

lemma runAll_append: "runAll env (q1 @ q2) s = runAll env q2 (runAll env q1 s)"
  by (induction q1 arbitrary: s) (simp_all add: runAll_Failed)

lemma exec_keeps_Failed: "taskStatus s = Failed \<Longrightarrow> taskStatus (exec env t s) = Failed"
  by (cases t) (simp_all add: fold_settle_status Let_def)

lemma exec_fields [simp]:
  "taskQueue (exec env t s) = taskQueue s"
  "options (exec env t s) = options s"
  "nextVersion (exec env t s) = nextVersion s"
  by (cases t; simp add: Let_def)+

lemma runAll_fields [simp]:
  "taskQueue (runAll env q s) = taskQueue s"
  "options (runAll env q s) = options s"
  "nextVersion (runAll env q s) = nextVersion s"
  by (induction q arbitrary: s; simp)+

lemma handleUserCancel_case:
  "handleUserCancel r s =
     (case r of Cancelled \<Rightarrow> Exit Canceled (emit (CancelNotice ''User cancel'') s)
      | Answer a \<Rightarrow> Ok a s)"
  by (cases r) simp_all

lemma start_fields [simp]:
  "taskStatus (start s) = Running"
  "taskQueue (start s) = taskQueue s"
  "modifiedFiles (start s) = modifiedFiles s"
  "options (start s) = options s"
  "nextVersion (start s) = nextVersion s"
  by (simp_all add: start_def checkDryRun_def)

lemma start_trace:
  "trace (start s) = trace s @ Intro ''Cross release'' # (if dry (options s) then [DryRunBanner] else [])"
  by (simp add: start_def checkDryRun_def)

lemma newApp_fields [simp]:
  "taskStatus (newApp opts) = Pending"
  "taskQueue (newApp opts) = []"
  "modifiedFiles (newApp opts) = []"
  "options (newApp opts) = opts"
  "trace (newApp opts) = []"
  by (simp_all add: newApp_def)

lemma getNextVersion_keeps:
  assumes "getNextVersion env s = r"
  shows "options (appOf r) = options s" and "taskQueue (appOf r) = taskQueue s"
    and "taskStatus (appOf r) = taskStatus s" and "modifiedFiles (appOf r) = modifiedFiles s"
  using assms
  by (auto simp: getNextVersion_def validVersion_def Let_def handleUserCancel_case
      split: option.splits PromptResult.splits if_splits)

lemma getNextVersion_trace:
  "\<exists>es. trace (appOf (getNextVersion env s)) = trace s @ es \<and>
     filter isFindCall es = [FindProjectFilesCall (dir (options s)) (excludes (options s)) None] \<and>
     filter isGitCall es = [] \<and> filter isUpgradeCall es = [] \<and> filter isConfirmCall es = [] \<and>
     (\<forall>e \<in> set es. isValidCall e \<longrightarrow> e = IsVersionValidCall (version (options s)))"
  by (auto simp: getNextVersion_def validVersion_def Let_def handleUserCancel_case
      split: option.splits PromptResult.splits if_splits)

lemma getProjects_fields [simp]:
  "taskStatus (getProjects env s) = taskStatus s"
  "modifiedFiles (getProjects env s) = modifiedFiles s"
  "options (getProjects env s) = options s"
  "nextVersion (getProjects env s) = nextVersion s"
  "trace (getProjects env s) =
     trace s @ [FindProjectFilesCall (dir (options s)) (excludes (options s)) (Some (recursive (options s)))]"
  "taskQueue (getProjects env s) =
     taskQueue s @ [UpgradeVersionTask (nextVersion s)
        (findProjectFiles env (dir (options s)) (excludes (options s)) (Some (recursive (options s))))
        (dir (options s))]"
  by (simp_all add: getProjects_def Let_def)

lemma setOpt_getOpt: "getOpt n (setOpt m v opts) = (if n = m then v else getOpt n opts)"
  by (cases n; cases m; simp)

lemma setOpt_fields [simp]:
  "dir (setOpt m v opts) = dir opts"
  "excludes (setOpt m v opts) = excludes opts"
  "recursive (setOpt m v opts) = recursive opts"
  "main (setOpt m v opts) = main opts"
  "version (setOpt m v opts) = version opts"
  "dry (setOpt m v opts) = dry opts"
  "yes (setOpt m v opts) = yes opts"
  by (cases m; simp)+

lemma confirmAndSet_Ok:
  assumes "confirmAndSet env y nm msg task s = Ok u s'"
  shows "taskQueue s' = taskQueue s @ (if truthy (getOpt nm (options s')) then [task] else [])"
    and "taskStatus s' = taskStatus s" and "modifiedFiles s' = modifiedFiles s"
    and "nextVersion s' = nextVersion s"
    and "\<And>n. n \<noteq> nm \<Longrightarrow> getOpt n (options s') = getOpt n (options s)"
    and "dry (options s') = dry (options s)" and "yes (options s') = yes (options s)"
    and "\<exists>es. trace s' = trace s @ es \<and> filter isGitCall es = [] \<and> filter isUpgradeCall es = []
           \<and> filter isFindCall es = [] \<and> filter isValidCall es = []"
  using assms
  by (auto simp: confirmAndSet_def Let_def handleUserCancel_case setOpt_getOpt
      split: PromptResult.splits if_splits)

lemma quiet_simps [simp]:
  "quiet []" "quiet (es @ es') = (quiet es \<and> quiet es')"
  "quiet (ConfirmCall m # es) = quiet es" "quiet (CancelNotice m # es) = quiet es"
  by (auto simp: quiet_def)

lemma confirmAndSet_trace:
  "\<exists>es. trace (appOf (confirmAndSet env y nm msg task s)) = trace s @ es \<and> quiet es"
  by (auto simp: confirmAndSet_def Let_def handleUserCancel_case
      split: PromptResult.splits if_splits)


lemma confirmReleaseOptions_trace:
  "\<exists>es. trace (appOf (confirmReleaseOptions env s)) = trace s @ es \<and> quiet es"
proof -
  let ?dr = "dry (options s)" and ?y = "yes (options s)" and ?alt = "resolveAltCommit env (options s)"
  let ?m = "formatMessageString (template ?alt) (nextVersion s)"
  let ?r1 = "confirmAndSet env ?y CommitStep ''should commit?''
               (CommitTask ?dr ?m (stageAll ?alt) (verify ?alt)) s"
  obtain es1 where e1: "trace (appOf ?r1) = trace s @ es1" "quiet es1"
    using confirmAndSet_trace by blast
  show ?thesis
  proof (cases ?r1)
    case (Ok u s1)
    let ?r2 = "confirmAndSet env ?y TagStep ''should create tag?''
                 (TagTask ?dr ?m (''v'' @ nextVersion s1)) s1"
    obtain es2 where e2: "trace (appOf ?r2) = trace s1 @ es2" "quiet es2"
      using confirmAndSet_trace by blast
    show ?thesis
    proof (cases ?r2)
      case (Ok u2 s2)
      let ?r3 = "confirmAndSet env ?y PushStep ''should push to remote?'' (PushTask ?dr) s2"
      obtain es3 where e3: "trace (appOf ?r3) = trace s2 @ es3" "quiet es3"
        using confirmAndSet_trace by blast
      have "confirmReleaseOptions env s = ?r3"
        using \<open>?r1 = Ok u s1\<close> Ok by (simp add: confirmReleaseOptions_def Let_def)
      moreover have "trace (appOf ?r3) = trace s @ (es1 @ es2 @ es3)"
        using e1 e2 e3 \<open>?r1 = Ok u s1\<close> Ok by simp
      ultimately show ?thesis using e1 e2 e3 by (metis quiet_simps(2))
    next
      case (Exit c s2)
      have "confirmReleaseOptions env s = Exit c s2"
        using \<open>?r1 = Ok u s1\<close> Exit by (simp add: confirmReleaseOptions_def Let_def)
      moreover have "trace s2 = trace s @ (es1 @ es2)"
        using e1 e2 \<open>?r1 = Ok u s1\<close> Exit by simp
      ultimately show ?thesis using e1 e2 by (metis appOf.simps(2) quiet_simps(2))
    next
      case (Throw e s2)
      have "confirmReleaseOptions env s = Throw e s2"
        using \<open>?r1 = Ok u s1\<close> Throw by (simp add: confirmReleaseOptions_def Let_def)
      moreover have "trace s2 = trace s @ (es1 @ es2)"
        using e1 e2 \<open>?r1 = Ok u s1\<close> Throw by simp
      ultimately show ?thesis using e1 e2 by (metis appOf.simps(3) quiet_simps(2))
    qed
  next
    case (Exit c s1)
    then have "confirmReleaseOptions env s = Exit c s1"
      by (simp add: confirmReleaseOptions_def Let_def)
    then show ?thesis using e1 Exit by auto
  next
    case (Throw e s1)
    then have "confirmReleaseOptions env s = Throw e s1"
      by (simp add: confirmReleaseOptions_def Let_def)
    then show ?thesis using e1 Throw by auto
  qed
qed

lemma confirmReleaseOptions_Ok:
  assumes "confirmReleaseOptions env s = Ok u s'"
  defines "m \<equiv> formatMessageString (template (resolveAltCommit env (options s))) (nextVersion s)"
  shows "taskQueue s' = taskQueue s
           @ (if truthy (commit (options s'))
              then [CommitTask (dry (options s)) m (stageAll (resolveAltCommit env (options s)))
                      (verify (resolveAltCommit env (options s)))] else [])
           @ (if truthy (tag (options s')) then [TagTask (dry (options s)) m (''v'' @ nextVersion s)] else [])
           @ (if truthy (push (options s')) then [PushTask (dry (options s))] else [])"
    and "taskStatus s' = taskStatus s" and "modifiedFiles s' = modifiedFiles s"
    and "nextVersion s' = nextVersion s"
proof -
  let ?dr = "dry (options s)" and ?y = "yes (options s)" and ?alt = "resolveAltCommit env (options s)"
  let ?r1 = "confirmAndSet env ?y CommitStep ''should commit?''
               (CommitTask ?dr m (stageAll ?alt) (verify ?alt)) s"
  from assms(1) obtain u1 s1 where r1: "?r1 = Ok u1 s1"
    by (cases ?r1) (simp_all add: confirmReleaseOptions_def Let_def m_def)
  let ?r2 = "confirmAndSet env ?y TagStep ''should create tag?''
               (TagTask ?dr m (''v'' @ nextVersion s1)) s1"
  from assms(1) r1 obtain u2 s2 where r2: "?r2 = Ok u2 s2"
    by (cases ?r2) (simp_all add: confirmReleaseOptions_def Let_def m_def)
  from assms(1) r1 r2
  have r3: "confirmAndSet env ?y PushStep ''should push to remote?'' (PushTask ?dr) s2 = Ok u s'"
    by (simp add: confirmReleaseOptions_def Let_def m_def)
  note a = confirmAndSet_Ok [OF r1] and b = confirmAndSet_Ok [OF r2] and c = confirmAndSet_Ok [OF r3]
  have c1: "commit (options s') = commit (options s1)"
    using b(5) [of CommitStep] c(5) [of CommitStep] by simp
  have c2: "tag (options s') = tag (options s2)"
    using c(5) [of TagStep] by simp
  show "taskStatus s' = taskStatus s" using a(2) b(2) c(2) by simp
  show "modifiedFiles s' = modifiedFiles s" using a(3) b(3) c(3) by simp
  show "nextVersion s' = nextVersion s" using a(4) b(4) c(4) by simp
  show "taskQueue s' = taskQueue s
           @ (if truthy (commit (options s'))
              then [CommitTask (dry (options s)) m (stageAll (resolveAltCommit env (options s)))
                      (verify (resolveAltCommit env (options s)))] else [])
           @ (if truthy (tag (options s')) then [TagTask (dry (options s)) m (''v'' @ nextVersion s)] else [])
           @ (if truthy (push (options s')) then [PushTask (dry (options s))] else [])"
    using a(1) b(1) c(1) a(4) c1 c2 by simp
qed

lemma fold_settle_trace:
  "\<exists>es. trace (fold (\<lambda>p. settle env v (snd p)) ps s) = trace s @ es \<and>
     (\<forall>e \<in> set es. (\<exists>f. e = UpgradeMessage v f) \<or> (\<exists>err. e = LogError err))"
proof (induction ps arbitrary: s)
  case Nil
  then show ?case by simp
next
  case (Cons p ps)
  obtain es where es: "trace (fold (\<lambda>p. settle env v (snd p)) ps (settle env v (snd p) s))
      = trace (settle env v (snd p) s) @ es"
    "\<forall>e \<in> set es. (\<exists>f. e = UpgradeMessage v f) \<or> (\<exists>err. e = LogError err)"
    using Cons.IH by blast
  have "\<exists>e. trace (settle env v (snd p) s) = trace s @ [e] \<and>
          ((\<exists>f. e = UpgradeMessage v f) \<or> (\<exists>err. e = LogError err))"
    by (simp add: settle_def split: option.splits)
  then obtain e where e: "trace (settle env v (snd p) s) = trace s @ [e]"
    "(\<exists>f. e = UpgradeMessage v f) \<or> (\<exists>err. e = LogError err)" by blast
  have "trace (fold (\<lambda>p. settle env v (snd p)) (p # ps) s) = trace s @ (e # es)"
    using es(1) e(1) by simp
  moreover have "\<forall>x \<in> set (e # es). (\<exists>f. x = UpgradeMessage v f) \<or> (\<exists>err. x = LogError err)"
    using es(2) e(2) by simp
  ultimately show ?case by blast
qed

lemma exec_upgrade_trace:
  "\<exists>es. trace (exec env (UpgradeVersionTask v fs d) s) = trace s @ map (UpgradeCall v) fs @ es \<and>
     filter isGitCall es = [] \<and> filter isUpgradeCall es = []"
proof -
  let ?s1 = "fold (\<lambda>projectFile. emit (UpgradeCall v projectFile)) fs s"
  obtain es where es: "trace (fold (\<lambda>p. settle env v (snd p)) (completionOrder env fs) ?s1)
      = trace ?s1 @ es" "\<forall>e \<in> set es. (\<exists>f. e = UpgradeMessage v f) \<or> (\<exists>err. e = LogError err)"
    using fold_settle_trace by blast
  have "filter isGitCall es = []" "filter isUpgradeCall es = []"
    using es(2) by (auto simp: filter_empty_conv)
  then show ?thesis using es(1) by simp
qed

lemma filter_map_UpgradeCall [simp]:
  "filter isGitCall (map (UpgradeCall v) fs) = []"
  "filter isUpgradeCall (map (UpgradeCall v) fs) = map (UpgradeCall v) fs"
  by (induction fs) simp_all

lemma exec_upgrade_status:
  "taskStatus (exec env (UpgradeVersionTask v fs d) s) =
     (if \<exists>f \<in> set fs. upgradeProjectVersion env v f \<noteq> None then Failed else taskStatus s)"
proof -
  have "(\<exists>p \<in> set (completionOrder env fs). upgradeProjectVersion env v (snd p) \<noteq> None)
        = (\<exists>f \<in> set fs. upgradeProjectVersion env v f \<noteq> None)"
    using completionOrder_set [of env fs] by (metis (no_types, lifting) image_iff)
  then show ?thesis by (simp add: fold_settle_status)
qed

lemma exec_upgrade_modified:
  "mset (modifiedFiles (exec env (UpgradeVersionTask v fs d) s)) =
     mset (modifiedFiles s) + mset (map path (filter (\<lambda>f. upgradeProjectVersion env v f = None) fs))"
proof -
  have "mset (filter (\<lambda>f. upgradeProjectVersion env v f = None) (map snd (completionOrder env fs)))
        = mset (filter (\<lambda>f. upgradeProjectVersion env v f = None) fs)"
    by (simp only: mset_filter completionOrder_mset)
  then have "mset (map path (filter (\<lambda>f. upgradeProjectVersion env v f = None) (map snd (completionOrder env fs))))
        = mset (map path (filter (\<lambda>f. upgradeProjectVersion env v f = None) fs))"
    by (metis mset_map)
  then show ?thesis by (simp add: fold_settle_modified)
qed

lemma prepare_trace:
  "filter isGitCall (trace (appOf (prepare env opts))) = []"
  "filter isUpgradeCall (trace (appOf (prepare env opts))) = []"
proof -
  let ?s0 = "start (newApp opts)"
  obtain es where es: "trace (appOf (getNextVersion env ?s0)) = trace ?s0 @ es"
    "filter isGitCall es = []" "filter isUpgradeCall es = []"
    using getNextVersion_trace [of env ?s0] by blast
  have t0: "filter isGitCall (trace ?s0) = []" "filter isUpgradeCall (trace ?s0) = []"
    by (simp_all add: start_trace)
  have "filter isGitCall (trace (appOf (prepare env opts))) = [] \<and>
        filter isUpgradeCall (trace (appOf (prepare env opts))) = []"
  proof (cases "getNextVersion env ?s0")
    case (Ok u s1)
    obtain es' where es': "trace (appOf (confirmReleaseOptions env (getProjects env s1)))
        = trace (getProjects env s1) @ es'" "quiet es'"
      using confirmReleaseOptions_trace by blast
    have "prepare env opts = confirmReleaseOptions env (getProjects env s1)"
      using Ok by (simp add: prepare_def)
    then show ?thesis using es es' t0 Ok by (simp add: quiet_def)
  next
    case (Exit c s1)
    then have "prepare env opts = Exit c s1" by (simp add: prepare_def)
    then show ?thesis using es t0 Exit by simp
  next
    case (Throw e s1)
    then have "prepare env opts = Throw e s1" by (simp add: prepare_def)
    then show ?thesis using es t0 Throw by simp
  qed
  then show "filter isGitCall (trace (appOf (prepare env opts))) = []"
    "filter isUpgradeCall (trace (appOf (prepare env opts))) = []" by simp_all
qed

lemma prepare_Ok:
  assumes "prepare env opts = Ok u s"
  defines "m \<equiv> formatMessageString (template (resolveAltCommit env opts)) (nextVersion s)"
  shows "taskQueue s =
           UpgradeVersionTask (nextVersion s)
             (findProjectFiles env (dir opts) (excludes opts) (Some (recursive opts))) (dir opts)
           # (if truthy (commit (options s))
              then [CommitTask (dry opts) m (stageAll (resolveAltCommit env opts))
                      (verify (resolveAltCommit env opts))] else [])
           @ (if truthy (tag (options s)) then [TagTask (dry opts) m (''v'' @ nextVersion s)] else [])
           @ (if truthy (push (options s)) then [PushTask (dry opts)] else [])"
    and "taskStatus s = Running" and "modifiedFiles s = []"
proof -
  let ?s0 = "start (newApp opts)"
  from assms(1) obtain u1 s1 where g: "getNextVersion env ?s0 = Ok u1 s1"
    by (cases "getNextVersion env ?s0") (simp_all add: prepare_def)
  with assms(1) have c: "confirmReleaseOptions env (getProjects env s1) = Ok u s"
    by (simp add: prepare_def)
  have k: "options s1 = opts" "taskQueue s1 = []" "taskStatus s1 = Running" "modifiedFiles s1 = []"
    using getNextVersion_keeps [OF g] by simp_all
  note r = confirmReleaseOptions_Ok [OF c]
  show "taskStatus s = Running" using r(2) k by simp
  show "modifiedFiles s = []" using r(3) k by simp
  show "taskQueue s =
           UpgradeVersionTask (nextVersion s)
             (findProjectFiles env (dir opts) (excludes opts) (Some (recursive opts))) (dir opts)
           # (if truthy (commit (options s))
              then [CommitTask (dry opts) m (stageAll (resolveAltCommit env opts))
                      (verify (resolveAltCommit env opts))] else [])
           @ (if truthy (tag (options s)) then [TagTask (dry opts) m (''v'' @ nextVersion s)] else [])
           @ (if truthy (push (options s)) then [PushTask (dry opts)] else [])"
    using r(1) r(4) k by (simp add: m_def)
qed


lemma run_appOf_cases:
  "(\<exists>u s. prepare env opts = Ok u s \<and> execute env opts = Ok () (runAll env (taskQueue s) s)
       \<and> run env opts = Ok () (doneApp (runAll env (taskQueue s) s)))
   \<or> ((\<forall>u s. prepare env opts \<noteq> Ok u s) \<and> execute env opts = prepare env opts
       \<and> run env opts = prepare env opts)"
  by (cases "prepare env opts") (simp_all add: run_def execute_def)

lemma doneApp_fields [simp]:
  "taskStatus (doneApp s) = Finished"
  "trace (doneApp s) = trace s @ [Outro ''Done'']"
  "taskQueue (doneApp s) = taskQueue s"
  "modifiedFiles (doneApp s) = modifiedFiles s"
  "options (doneApp s) = options s"
  "nextVersion (doneApp s) = nextVersion s"
  by (simp_all add: doneApp_def)

lemma confirmAndSet_yes:
  assumes "confirmAndSet env True nm msg task s = Ok u s'"
  shows "getOpt nm (options s') = Some True"
  using assms by (auto simp: confirmAndSet_def Let_def setOpt_getOpt truthy_def split: if_splits)

lemma confirmReleaseOptions_yes:
  assumes "confirmReleaseOptions env s = Ok u s'" and "yes (options s)"
  shows "commit (options s') = Some True \<and> tag (options s') = Some True \<and> push (options s') = Some True"
proof -
  let ?dr = "dry (options s)" and ?alt = "resolveAltCommit env (options s)"
  let ?m = "formatMessageString (template ?alt) (nextVersion s)"
  let ?r1 = "confirmAndSet env True CommitStep ''should commit?''
               (CommitTask ?dr ?m (stageAll ?alt) (verify ?alt)) s"
  from assms obtain u1 s1 where r1: "?r1 = Ok u1 s1"
    by (cases ?r1) (simp_all add: confirmReleaseOptions_def Let_def)
  let ?r2 = "confirmAndSet env True TagStep ''should create tag?''
               (TagTask ?dr ?m (''v'' @ nextVersion s1)) s1"
  from assms r1 obtain u2 s2 where r2: "?r2 = Ok u2 s2"
    by (cases ?r2) (simp_all add: confirmReleaseOptions_def Let_def)
  from assms r1 r2
  have r3: "confirmAndSet env True PushStep ''should push to remote?'' (PushTask ?dr) s2 = Ok u s'"
    by (simp add: confirmReleaseOptions_def Let_def)
  note b = confirmAndSet_Ok [OF r2] and c = confirmAndSet_Ok [OF r3]
  have "commit (options s') = commit (options s1)"
    using b(5) [of CommitStep] c(5) [of CommitStep] by simp
  moreover have "tag (options s') = tag (options s2)"
    using c(5) [of TagStep] by simp
  ultimately show ?thesis
    using confirmAndSet_yes [OF r1] confirmAndSet_yes [OF r2] confirmAndSet_yes [OF r3] by simp
qed

lemma prepare_yes:
  assumes "prepare env opts = Ok u s" and "yes opts"
  shows "commit (options s) = Some True \<and> tag (options s) = Some True \<and> push (options s) = Some True"
proof -
  let ?s0 = "start (newApp opts)"
  from assms(1) obtain u1 s1 where g: "getNextVersion env ?s0 = Ok u1 s1"
    by (cases "getNextVersion env ?s0") (simp_all add: prepare_def)
  with assms(1) have c: "confirmReleaseOptions env (getProjects env s1) = Ok u s"
    by (simp add: prepare_def)
  have "options s1 = opts" using getNextVersion_keeps(1) [OF g] by simp
  then show ?thesis using confirmReleaseOptions_yes [OF c] assms(2) by simp
qed

lemma agrees_plain:
  assumes "filter isGitCall es = []" "filter isUpgradeCall es = []"
    and "\<forall>e \<in> set es. isValidCall e \<longrightarrow> e = IsVersionValidCall ver"
  shows "list_all (agrees ver m nv) es"
  unfolding list_all_iff
proof
  fix e assume e: "e \<in> set es"
  then have "\<not> isGitCall e" "\<not> isUpgradeCall e" "isValidCall e \<longrightarrow> e = IsVersionValidCall ver"
    using assms by (auto simp: filter_empty_conv)
  then show "agrees ver m nv e" by (cases e) (simp_all add: agrees_def)
qed

lemma exec_agrees:
  assumes "taskAgrees m nv t" and "list_all (agrees ver m nv) (trace s)"
  shows "list_all (agrees ver m nv) (trace (exec env t s))"
proof (cases t)
  case (UpgradeVersionTask v fs d)
  let ?s1 = "fold (\<lambda>projectFile. emit (UpgradeCall v projectFile)) fs s"
  obtain es where es: "trace (fold (\<lambda>p. settle env v (snd p)) (completionOrder env fs) ?s1)
      = trace ?s1 @ es" "\<forall>e \<in> set es. (\<exists>f. e = UpgradeMessage v f) \<or> (\<exists>err. e = LogError err)"
    using fold_settle_trace by blast
  have "list_all (agrees ver m nv) es"
    using es(2) by (auto simp: list_all_iff agrees_def)
  moreover have "list_all (agrees ver m nv) (map (UpgradeCall v) fs)"
    using assms(1) UpgradeVersionTask by (simp add: list_all_iff agrees_def)
  ultimately show ?thesis using assms(2) es(1) UpgradeVersionTask by simp
next
  case (CommitTask d m' a v)
  then show ?thesis using assms by (simp add: agrees_def)
next
  case (TagTask d m' tn)
  then show ?thesis using assms by (simp add: agrees_def)
next
  case (PushTask d)
  then show ?thesis using assms by (simp add: agrees_def Let_def)
qed

lemma runAll_agrees:
  assumes "\<forall>t \<in> set q. taskAgrees m nv t" and "list_all (agrees ver m nv) (trace s)"
  shows "list_all (agrees ver m nv) (trace (runAll env q s))"
  using assms
proof (induction q arbitrary: s)
  case Nil
  then show ?case by simp
next
  case (Cons t q)
  show ?case
  proof (cases "taskStatus s = Failed")
    case True
    then show ?thesis using Cons.prems by simp
  next
    case False
    have "list_all (agrees ver m nv) (trace (exec env t s))"
      using exec_agrees Cons.prems by simp
    then have "list_all (agrees ver m nv) (trace (runAll env q (exec env t s)))"
      using Cons.IH Cons.prems by simp
    then show ?thesis using False by (simp del: exec.simps)
  qed
qed

lemma prepare_trace_valid:
  "\<forall>e \<in> set (trace (appOf (prepare env opts))). isValidCall e \<longrightarrow> e = IsVersionValidCall (version opts)"
proof -
  let ?s0 = "start (newApp opts)"
  obtain es where es: "trace (appOf (getNextVersion env ?s0)) = trace ?s0 @ es"
    "\<forall>e \<in> set es. isValidCall e \<longrightarrow> e = IsVersionValidCall (version opts)"
    using getNextVersion_trace [of env ?s0] by auto
  have t0: "\<forall>e \<in> set (trace ?s0). \<not> isValidCall e"
    by (simp add: start_trace)
  show ?thesis
  proof (cases "getNextVersion env ?s0")
    case (Ok u s1)
    obtain es' where es': "trace (appOf (confirmReleaseOptions env (getProjects env s1)))
        = trace (getProjects env s1) @ es'" "quiet es'"
      using confirmReleaseOptions_trace by blast
    have "\<forall>e \<in> set es'. \<not> isValidCall e"
      using es'(2) by (auto simp: quiet_def filter_empty_conv)
    moreover have "prepare env opts = confirmReleaseOptions env (getProjects env s1)"
      using Ok by (simp add: prepare_def)
    ultimately show ?thesis using es es'(1) t0 Ok by auto
  next
    case (Exit c s1)
    then have "prepare env opts = Exit c s1" by (simp add: prepare_def)
    then show ?thesis using es t0 Exit by auto
  next
    case (Throw e s1)
    then have "prepare env opts = Throw e s1" by (simp add: prepare_def)
    then show ?thesis using es t0 Throw by auto
  qed
qed

lemma run_agrees:
  "list_all (agrees (version opts)
       (formatMessageString (template (resolveAltCommit env opts)) (nextVersion (appOf (run env opts))))
       (nextVersion (appOf (run env opts))))
     (trace (appOf (run env opts)))"
proof -
  let ?nv = "nextVersion (appOf (run env opts))"
  let ?m = "formatMessageString (template (resolveAltCommit env opts)) ?nv"
  have pre: "list_all (agrees (version opts) ?m ?nv) (trace (appOf (prepare env opts)))"
    using prepare_trace [of env opts] prepare_trace_valid [of env opts] by (intro agrees_plain)
  from run_appOf_cases [of env opts] show ?thesis
  proof (elim disjE exE conjE)
    fix u s
    assume p: "prepare env opts = Ok u s"
      and r: "run env opts = Ok () (doneApp (runAll env (taskQueue s) s))"
    have nv: "?nv = nextVersion s" using r by simp
    have "\<forall>t \<in> set (taskQueue s). taskAgrees ?m ?nv t"
      unfolding prepare_Ok(1) [OF p] nv by auto
    moreover have "list_all (agrees (version opts) ?m ?nv) (trace s)" using pre p by simp
    ultimately have "list_all (agrees (version opts) ?m ?nv) (trace (runAll env (taskQueue s) s))"
      by (rule runAll_agrees)
    then show ?thesis using r by (simp add: agrees_def)
  next
    assume "run env opts = prepare env opts"
    then show ?thesis using pre by simp
  qed
qed



lemma GetSubstitution_plain:
  "CHR ''$'' \<notin> set repl \<Longrightarrow> GetSubstitution matched p f repl = repl"
  by (induction matched p f repl rule: GetSubstitution.induct) auto

lemma includesStr_iff: "includesStr s p \<longleftrightarrow> (\<exists>a b. s = a @ p @ b)"
proof (induction s)
  case Nil
  then show ?case by auto
next
  case (Cons c cs)
  show ?case
  proof
    assume "includesStr (c # cs) p"
    then consider "prefix p (c # cs)" | "includesStr cs p" by auto
    then show "\<exists>a b. c # cs = a @ p @ b"
    proof cases
      case 1
      then obtain b where "c # cs = p @ b" by (auto simp: prefix_def)
      then have "c # cs = [] @ p @ b" by simp
      then show ?thesis by blast
    next
      case 2
      then obtain a b where "cs = a @ p @ b" using Cons.IH by blast
      then have "c # cs = (c # a) @ p @ b" by simp
      then show ?thesis by blast
    qed
  next
    assume "\<exists>a b. c # cs = a @ p @ b"
    then obtain a b where ab: "c # cs = a @ p @ b" by blast
    show "includesStr (c # cs) p"
    proof (cases a)
      case Nil
      then have "prefix p (c # cs)" using ab by (simp add: prefix_def)
      then show ?thesis by simp
    next
      case (Cons x a')
      then have "cs = a' @ p @ b" using ab by simp
      then show ?thesis using Cons.IH by auto
    qed
  qed
qed


lemma join_Cons: "segs \<noteq> [] \<Longrightarrow> join sep (x # segs) = x @ sep @ join sep segs"
  by (cases segs) simp_all

lemma prefix_ps: "prefix ''%s'' s \<longleftrightarrow> (\<exists>r. s = CHR ''%'' # CHR ''s'' # r)"
  by (auto simp: prefix_def)

lemma includesStr_append_ps:
  "includesStr (a @ b) ''%s'' \<longleftrightarrow>
     includesStr a ''%s'' \<or> includesStr b ''%s'' \<or>
     (a \<noteq> [] \<and> last a = CHR ''%'' \<and> b \<noteq> [] \<and> hd b = CHR ''s'')"
proof (induction a)
  case Nil
  then show ?case by simp
next
  case (Cons c a)
  show ?case
  proof (cases a)
    case Nil
    then show ?thesis by (cases b) (auto simp: prefix_ps)
  next
    case (Cons d a')
    then show ?thesis using Cons.IH by (auto simp: prefix_ps)
  qed
qed

lemma replaceAll_from_segments:
  assumes "CHR ''$'' \<notin> set V"
  shows "\<exists>segs. segs \<noteq> [] \<and> str = join ''%s'' segs \<and> (\<forall>seg \<in> set segs. \<not> includesStr seg ''%s'')
           \<and> replaceAll_from ''%s'' V pre str = join V segs"
proof (induction str arbitrary: pre rule: length_induct)
  case (1 str)
  show ?case
  proof (cases str)
    case Nil
    have "[[]] \<noteq> [] \<and> str = join ''%s'' [[]] \<and> (\<forall>seg \<in> set [[]]. \<not> includesStr seg ''%s'')
        \<and> replaceAll_from ''%s'' V pre str = join V [[]]"
      using Nil by simp
    then show ?thesis by blast
  next
    case (Cons c cs)
    show ?thesis
    proof (cases "prefix ''%s'' str")
      case True
      then obtain r where r: "str = CHR ''%'' # CHR ''s'' # r" by (auto simp: prefix_ps)
      then have "length r < length str" by simp
      then obtain segs where segs: "segs \<noteq> []" "r = join ''%s'' segs"
        "\<forall>seg \<in> set segs. \<not> includesStr seg ''%s''"
        "replaceAll_from ''%s'' V (pre @ ''%s'') r = join V segs"
        using 1 by blast
      have "replaceAll_from ''%s'' V pre str = V @ replaceAll_from ''%s'' V (pre @ ''%s'') r"
        using r assms by (simp add: GetSubstitution_plain)
      then have "replaceAll_from ''%s'' V pre str = join V ([] # segs)"
        using segs(1,4) by (simp add: join_Cons)
      moreover have "str = join ''%s'' ([] # segs)" using r segs(1,2) by (simp add: join_Cons)
      moreover have "\<forall>seg \<in> set ([] # segs). \<not> includesStr seg ''%s''" using segs(3) by simp
      ultimately show ?thesis by blast
    next
      case False
      have "length cs < length str" using Cons by simp
      then obtain segs where segs: "segs \<noteq> []" "cs = join ''%s'' segs"
        "\<forall>seg \<in> set segs. \<not> includesStr seg ''%s''"
        "replaceAll_from ''%s'' V (pre @ [c]) cs = join V segs"
        using 1 by blast
      from segs(1) obtain x xs where xs: "segs = x # xs" by (cases segs) auto
      have cs: "cs = (if xs = [] then x else x @ ''%s'' @ join ''%s'' xs)"
        using segs(2) xs by (cases xs) simp_all
      have np: "\<not> prefix ''%s'' (c # x)"
      proof
        assume "prefix ''%s'' (c # x)"
        then obtain r where "c # x = CHR ''%'' # CHR ''s'' # r"
          using prefix_ps [of "c # x"] by blast
        then have "prefix ''%s'' (c # cs)" using cs prefix_ps [of "c # cs"] by auto
        then show False using False Cons by simp
      qed
      have "replaceAll_from ''%s'' V pre str = c # join V segs"
        using False Cons segs(4) by auto
      then have "replaceAll_from ''%s'' V pre str = join V ((c # x) # xs)"
        using xs by (cases xs) simp_all
      moreover have "str = join ''%s'' ((c # x) # xs)"
        using Cons segs(2) xs by (cases xs) simp_all
      moreover have "\<forall>seg \<in> set ((c # x) # xs). \<not> includesStr seg ''%s''"
        using segs(3) xs np by simp
      ultimately show ?thesis by blast
    qed
  qed
qed

lemma join_no_placeholder:
  assumes "\<forall>seg \<in> set segs. \<not> includesStr seg ''%s''"
    and "V \<noteq> []" "hd V \<noteq> CHR ''s''" "last V \<noteq> CHR ''%''" "\<not> includesStr V ''%s''"
  shows "\<not> includesStr (join V segs) ''%s''"
  using assms(1)
proof (induction segs)
  case Nil
  then show ?case by simp
next
  case (Cons x xs)
  show ?case
  proof (cases xs)
    case Nil
    then show ?thesis using Cons.prems by simp
  next
    case (Cons y ys)
    have ih: "\<not> includesStr (join V xs) ''%s''" using Cons.IH Cons.prems by simp
    have a: "\<not> includesStr (V @ join V xs) ''%s''"
      using includesStr_append_ps [of V "join V xs"] assms(2,4,5) ih by simp
    have "hd (V @ join V xs) \<noteq> CHR ''s''" using assms(2,3) by simp
    moreover have "\<not> includesStr x ''%s''" using Cons.prems by simp
    ultimately have "\<not> includesStr (x @ V @ join V xs) ''%s''"
      using includesStr_append_ps [of x "V @ join V xs"] a by simp
    then show ?thesis using Cons by simp
  qed
qed

text \<open>
  A dollar sign in the version is read as a replacement pattern: \<open>$&\<close> brings the
  placeholder back.
\<close>

lemma format_dollar_example:
  "formatMessageString ''release %s'' ''1.0.0-$&'' = ''release 1.0.0-%s''"
  by code_simp

lemma exec_git_task:
  assumes "isGitTask t"
  shows "\<exists>e. trace (exec env t s) = trace s @ [e] \<and> isGitCall e \<and> stepOf e = name t \<and>
           (gitSucceeds env \<longrightarrow> taskStatus (exec env t s) = taskStatus s)"
  using assms by (cases t) (simp_all add: Let_def gitSucceeds_def)

lemma runAll_git_tasks:
  assumes "\<forall>t \<in> set q. isGitTask t"
  shows "\<exists>b. trace (runAll env q s) = trace s @ b \<and> list_all isGitCall b \<and>
           (\<exists>k. map stepOf b = take k (map name q)) \<and>
           (gitSucceeds env \<and> taskStatus s \<noteq> Failed \<longrightarrow> map stepOf b = map name q)"
  using assms
proof (induction q arbitrary: s)
  case Nil
  then show ?case by simp
next
  case (Cons t q)
  show ?case
  proof (cases "taskStatus s = Failed")
    case True
    have 1: "trace (runAll env (t # q) s) = trace s @ []" using True by simp
    have 2: "list_all isGitCall []" by simp
    have 3: "map stepOf [] = take 0 (map name (t # q))" by simp
    show ?thesis using 1 2 3 True by blast
  next
    case False
    let ?s1 = "exec env t s"
    have gt: "isGitTask t" using Cons.prems by simp
    obtain e where e: "trace ?s1 = trace s @ [e]" "isGitCall e" "stepOf e = name t"
      "gitSucceeds env \<longrightarrow> taskStatus ?s1 = taskStatus s"
      using exec_git_task [OF gt, of env s] by blast
    have "\<forall>t \<in> set q. isGitTask t" using Cons.prems by simp
    from Cons.IH [OF this, of ?s1]
    obtain b k where b: "trace (runAll env q ?s1) = trace ?s1 @ b" "list_all isGitCall b"
      "map stepOf b = take k (map name q)"
      "gitSucceeds env \<and> taskStatus ?s1 \<noteq> Failed \<longrightarrow> map stepOf b = map name q"
      by blast
    have r: "runAll env (t # q) s = runAll env q ?s1" using False by (simp del: exec.simps)
    have 1: "trace (runAll env (t # q) s) = trace s @ (e # b)" using r b(1) e(1) by simp
    have 2: "list_all isGitCall (e # b)" using e(2) b(2) by simp
    have 3: "map stepOf (e # b) = take (Suc k) (map name (t # q))" using e(3) b(3) by simp
    have 4: "gitSucceeds env \<and> taskStatus s \<noteq> Failed \<longrightarrow> map stepOf (e # b) = map name (t # q)"
      using e(3,4) b(4) by simp
    show ?thesis using 1 2 3 4 by blast
  qed
qed

section \<open>The claims\<close>

text \<open>
  Claim C1 (fail-fast). The loop of \<open>run\<close> looks at the status before each task. Once the
  status is failed after some part of the queue has run, whatever follows in the queue is
  not invoked: the state, with its trace of collaborator calls, stays as it is. In
  particular, when the write of the next version fails for one of the discovered files,
  the run makes no commit, tag or push call, whatever the options are (\<open>--yes\<close> included).
\<close>

theorem run_fail_fast:
  "(taskStatus (runAll env q1 s) = Failed \<longrightarrow> runAll env (q1 @ q2) s = runAll env q1 s) \<and>
   ((\<exists>f \<in> set (findProjectFiles env (dir opts) (excludes opts) (Some (recursive opts))).
        upgradeProjectVersion env (nextVersion (appOf (run env opts))) f \<noteq> None)
     \<longrightarrow> filter isGitCall (trace (appOf (run env opts))) = [])"
proof (intro conjI impI)
  assume "taskStatus (runAll env q1 s) = Failed"
  then show "runAll env (q1 @ q2) s = runAll env q1 s"
    by (simp add: runAll_append runAll_Failed)
next
  let ?fs = "findProjectFiles env (dir opts) (excludes opts) (Some (recursive opts))"
  assume bad: "\<exists>f \<in> set ?fs. upgradeProjectVersion env (nextVersion (appOf (run env opts))) f \<noteq> None"
  from run_appOf_cases [of env opts]
  show "filter isGitCall (trace (appOf (run env opts))) = []"
  proof (elim disjE exE conjE)
    fix u s
    assume p: "prepare env opts = Ok u s"
      and r: "run env opts = Ok () (doneApp (runAll env (taskQueue s) s))"
    let ?up = "UpgradeVersionTask (nextVersion s) ?fs (dir opts)"
    from prepare_Ok(1) [OF p] obtain rest where q: "taskQueue s = ?up # rest" by blast
    have nv: "nextVersion (appOf (run env opts)) = nextVersion s" using r by simp
    have st: "taskStatus (exec env ?up s) = Failed"
      using bad nv by (simp add: exec_upgrade_status del: exec.simps)
    have "runAll env (taskQueue s) s = exec env ?up s"
      using q prepare_Ok(2) [OF p] st by (simp add: runAll_Failed del: exec.simps)
    moreover obtain es where "trace (exec env ?up s) = trace s @ map (UpgradeCall (nextVersion s)) ?fs @ es"
      "filter isGitCall es = []"
      using exec_upgrade_trace by blast
    moreover have "filter isGitCall (trace s) = []"
      using prepare_trace(1) [of env opts] p by simp
    ultimately show ?thesis using r by (simp del: exec.simps)
  next
    assume "run env opts = prepare env opts"
    then show ?thesis using prepare_trace(1) [of env opts] by simp
  qed
qed


text \<open>The theorem at \<open>--yes\<close> with a failing write to \<open>Cargo.toml\<close>.\<close>

theorem run_fail_fast_witness:
  "taskStatus (runAll envFail [UpgradeVersionTask ''2.1.0'' [pkg, cargo, pom] ''.'']
      (start (newApp optsYes))) = Failed
   \<and> runAll envFail ([UpgradeVersionTask ''2.1.0'' [pkg, cargo, pom] ''.''] @ [PushTask False])
         (start (newApp optsYes))
       = runAll envFail [UpgradeVersionTask ''2.1.0'' [pkg, cargo, pom] ''.''] (start (newApp optsYes))
   \<and> yes optsYes
   \<and> (\<exists>f \<in> set (findProjectFiles envFail (dir optsYes) (excludes optsYes) (Some (recursive optsYes))).
         upgradeProjectVersion envFail (nextVersion (appOf (run envFail optsYes))) f \<noteq> None)
   \<and> filter isGitCall (trace (appOf (run envFail optsYes))) = []"
proof -
  have h1: "taskStatus (runAll envFail [UpgradeVersionTask ''2.1.0'' [pkg, cargo, pom] ''.'']
      (start (newApp optsYes))) = Failed"
    by code_simp
  have h2: "\<exists>f \<in> set (findProjectFiles envFail (dir optsYes) (excludes optsYes) (Some (recursive optsYes))).
         upgradeProjectVersion envFail (nextVersion (appOf (run envFail optsYes))) f \<noteq> None"
    by code_simp
  have h3: "yes optsYes" by code_simp
  note t = run_fail_fast [of envFail "[UpgradeVersionTask ''2.1.0'' [pkg, cargo, pom] ''.'']"
      "start (newApp optsYes)" "[PushTask False]" optsYes]
  from t h1 have c1: "runAll envFail ([UpgradeVersionTask ''2.1.0'' [pkg, cargo, pom] ''.''] @ [PushTask False])
         (start (newApp optsYes))
       = runAll envFail [UpgradeVersionTask ''2.1.0'' [pkg, cargo, pom] ''.''] (start (newApp optsYes))"
    by blast
  from t h2 have c2: "filter isGitCall (trace (appOf (run envFail optsYes))) = []"
    by blast
  show ?thesis using h1 h2 h3 c1 c2 by blast
qed

text \<open>
  Claim C2, as stated, fails: in a run whose status became failed in the loop, \<open>#done\<close>
  sets it to finished.
\<close>

theorem failed_overwritten_by_done_counterexample:
  "map_option taskStatus (returned (execute envFail optsYes)) = Some Failed \<and>
   map_option taskStatus (returned (run envFail optsYes)) = Some Finished"
  by code_simp

text \<open>
  Claim C2, amended. While the queue is executed a failed status stays: no task action
  changes it and the loop leaves a failed state untouched. \<open>#done\<close>, the last operation of
  \<open>run\<close>, assigns finished whatever the status was, so every run that returns ends with the
  status finished.
\<close>

theorem failed_kept_until_done:
  "(taskStatus s = Failed \<longrightarrow> taskStatus (exec env task s) = Failed \<and> runAll env q s = s) \<and>
   (\<forall>u s'. run env opts = Ok u s' \<longrightarrow> taskStatus s' = Finished)"
proof (intro conjI impI allI)
  assume "taskStatus s = Failed"
  then show "taskStatus (exec env task s) = Failed" by (rule exec_keeps_Failed)
next
  assume "taskStatus s = Failed"
  then show "runAll env q s = s" by (rule runAll_Failed)
next
  fix u s'
  assume "run env opts = Ok u s'"
  then show "taskStatus s' = Finished"
    by (cases "execute env opts") (auto simp: run_def)
qed

text \<open>The amended claim at a failed state and at the run with a failing write.\<close>

theorem failed_kept_until_done_witness:
  "taskStatus ((newApp optsYes)\<lparr>taskStatus := Failed\<rparr>) = Failed
   \<and> taskStatus (exec envFail (PushTask False) ((newApp optsYes)\<lparr>taskStatus := Failed\<rparr>)) = Failed
   \<and> runAll envFail [PushTask False] ((newApp optsYes)\<lparr>taskStatus := Failed\<rparr>)
       = (newApp optsYes)\<lparr>taskStatus := Failed\<rparr>
   \<and> run envFail optsYes = Ok () (appOf (run envFail optsYes))
   \<and> taskStatus (appOf (run envFail optsYes)) = Finished"
proof -
  have h1: "taskStatus ((newApp optsYes)\<lparr>taskStatus := Failed\<rparr>) = Failed" by simp
  have h2: "run envFail optsYes = Ok () (appOf (run envFail optsYes))" by code_simp
  note t = failed_kept_until_done [where s = "(newApp optsYes)\<lparr>taskStatus := Failed\<rparr>"
      and env = envFail and task = "PushTask False" and q = "[PushTask False]" and opts = optsYes]
  from t h1 have c1: "taskStatus (exec envFail (PushTask False) ((newApp optsYes)\<lparr>taskStatus := Failed\<rparr>)) = Failed"
    and c2: "runAll envFail [PushTask False] ((newApp optsYes)\<lparr>taskStatus := Failed\<rparr>)
       = (newApp optsYes)\<lparr>taskStatus := Failed\<rparr>"
    by blast+
  from t h2 have c3: "taskStatus (appOf (run envFail optsYes)) = Finished" by blast
  show ?thesis using h1 h2 c1 c2 c3 by blast
qed

text \<open>
  Claim C3 (shape of the queue and order of execution). In every run that reaches the
  loop the queue holds the version-update task first; behind it the commit, tag and push
  tasks, each present exactly when its option is true after the gates, in this order.
  With \<open>--yes\<close> the queue is update, commit, tag, push, whatever the step options were.
  The run returns with this queue and these options, and what it did after the gates is:
  first the events of the version update, with a write started for every discovered file
  and no version-control call; then version-control calls only, whose steps are the first
  ones of the queue behind the update, in the queue's order; then the closing line. When
  every write succeeds and the version-control calls succeed, the steps called are all of
  the queue behind the update.
\<close>

theorem queue_shape:
  assumes "prepare env opts = Ok u s"
  shows "map name (taskQueue s) =
           ''upgradeVersion''
           # (if truthy (commit (options s)) then [''commit''] else [])
           @ (if truthy (tag (options s)) then [''tag''] else [])
           @ (if truthy (push (options s)) then [''push''] else [])
         \<and> (yes opts \<longrightarrow> map name (taskQueue s) = [''upgradeVersion'', ''commit'', ''tag'', ''push''])
         \<and> (\<exists>s' a b. run env opts = Ok () s' \<and> taskQueue s' = taskQueue s \<and> options s' = options s
               \<and> trace s' = trace s @ a @ b @ [Outro ''Done'']
               \<and> filter isUpgradeCall a
                    = map (UpgradeCall (nextVersion s))
                        (findProjectFiles env (dir opts) (excludes opts) (Some (recursive opts)))
               \<and> filter isGitCall a = []
               \<and> list_all isGitCall b
               \<and> (\<exists>k. map stepOf b = take k (tl (map name (taskQueue s))))
               \<and> (gitSucceeds env
                    \<and> (\<forall>f \<in> set (findProjectFiles env (dir opts) (excludes opts) (Some (recursive opts))).
                          upgradeProjectVersion env (nextVersion s) f = None)
                    \<longrightarrow> map stepOf b = tl (map name (taskQueue s))))"
proof -
  let ?fs = "findProjectFiles env (dir opts) (excludes opts) (Some (recursive opts))"
  let ?up = "UpgradeVersionTask (nextVersion s) ?fs (dir opts)"
  have 1: "map name (taskQueue s) =
           ''upgradeVersion''
           # (if truthy (commit (options s)) then [''commit''] else [])
           @ (if truthy (tag (options s)) then [''tag''] else [])
           @ (if truthy (push (options s)) then [''push''] else [])"
    by (simp add: prepare_Ok(1) [OF assms])
  have 2: "map name (taskQueue s) = [''upgradeVersion'', ''commit'', ''tag'', ''push'']" if "yes opts"
    using 1 prepare_yes [OF assms that] by (simp add: truthy_def)
  define gq where "gq = tl (taskQueue s)"
  have q: "taskQueue s = ?up # gq"
    unfolding gq_def by (simp add: prepare_Ok(1) [OF assms])
  have gq: "\<forall>t \<in> set gq. isGitTask t"
    unfolding gq_def by (auto simp: prepare_Ok(1) [OF assms])
  let ?s1 = "exec env ?up s"
  let ?s2 = "runAll env gq ?s1"
  have r0: "runAll env (taskQueue s) s = ?s2"
    using q prepare_Ok(2) [OF assms] by (simp del: exec.simps)
  have r: "run env opts = Ok () (doneApp ?s2)"
    using assms r0 by (simp add: run_def execute_def)
  obtain es where es: "trace ?s1 = trace s @ map (UpgradeCall (nextVersion s)) ?fs @ es"
    "filter isGitCall es = []" "filter isUpgradeCall es = []"
    using exec_upgrade_trace by blast
  let ?a = "map (UpgradeCall (nextVersion s)) ?fs @ es"
  obtain b k where b: "trace ?s2 = trace ?s1 @ b" "list_all isGitCall b"
    "map stepOf b = take k (map name gq)"
    "gitSucceeds env \<and> taskStatus ?s1 \<noteq> Failed \<longrightarrow> map stepOf b = map name gq"
    using runAll_git_tasks [OF gq, of env ?s1] by blast
  have tl: "tl (map name (taskQueue s)) = map name gq" using q by simp
  have st: "taskStatus ?s1 \<noteq> Failed"
    if "\<forall>f \<in> set ?fs. upgradeProjectVersion env (nextVersion s) f = None"
    using that prepare_Ok(2) [OF assms]
    by (simp add: exec_upgrade_status del: exec.simps)
  have t1: "taskQueue (doneApp ?s2) = taskQueue s" by (simp del: exec.simps)
  have t2: "options (doneApp ?s2) = options s" by (simp del: exec.simps)
  have t3: "trace (doneApp ?s2) = trace s @ ?a @ b @ [Outro ''Done'']"
    using b(1) es(1) by (simp del: exec.simps)
  have t4: "filter isUpgradeCall ?a = map (UpgradeCall (nextVersion s)) ?fs" using es(3) by simp
  have t5: "filter isGitCall ?a = []" using es(2) by simp
  have t6: "\<exists>k. map stepOf b = take k (tl (map name (taskQueue s)))" using b(3) tl by auto
  have t7: "gitSucceeds env \<and> (\<forall>f \<in> set ?fs. upgradeProjectVersion env (nextVersion s) f = None)
      \<longrightarrow> map stepOf b = tl (map name (taskQueue s))"
    using b(4) st tl by auto
  have 3: "\<exists>s' a b. run env opts = Ok () s' \<and> taskQueue s' = taskQueue s \<and> options s' = options s
               \<and> trace s' = trace s @ a @ b @ [Outro ''Done'']
               \<and> filter isUpgradeCall a = map (UpgradeCall (nextVersion s)) ?fs
               \<and> filter isGitCall a = []
               \<and> list_all isGitCall b
               \<and> (\<exists>k. map stepOf b = take k (tl (map name (taskQueue s))))
               \<and> (gitSucceeds env
                    \<and> (\<forall>f \<in> set ?fs. upgradeProjectVersion env (nextVersion s) f = None)
                    \<longrightarrow> map stepOf b = tl (map name (taskQueue s)))"
    by (rule exI [where x = "doneApp ?s2"], rule exI [where x = ?a], rule exI [where x = b])
      (intro conjI r t1 t2 t3 t4 t5 b(2) t6 t7)
  show ?thesis using 1 2 3 by (intro conjI impI)
qed

text \<open>
  The theorem at a run in which the operator declines the push, so that the push is
  neither queued nor called, and at a run with \<open>--yes\<close>.
\<close>

theorem queue_shape_witness:
  "prepare envNoPush optsAsk = Ok () (appOf (prepare envNoPush optsAsk))
   \<and> push (options (appOf (prepare envNoPush optsAsk))) = Some False
   \<and> map name (taskQueue (appOf (prepare envNoPush optsAsk))) = [''upgradeVersion'', ''commit'', ''tag'']
   \<and> gitSucceeds envNoPush
   \<and> (\<exists>a b. trace (appOf (run envNoPush optsAsk))
                = trace (appOf (prepare envNoPush optsAsk)) @ a @ b @ [Outro ''Done'']
            \<and> filter isGitCall a = [] \<and> list_all isGitCall b
            \<and> map stepOf b = [''commit'', ''tag''])
   \<and> prepare envGood optsYes = Ok () (appOf (prepare envGood optsYes))
   \<and> yes optsYes
   \<and> map name (taskQueue (appOf (prepare envGood optsYes))) = [''upgradeVersion'', ''commit'', ''tag'', ''push'']"
proof -
  let ?s = "appOf (prepare envNoPush optsAsk)"
  let ?fs = "findProjectFiles envNoPush (dir optsAsk) (excludes optsAsk) (Some (recursive optsAsk))"
  have h1: "prepare envNoPush optsAsk = Ok () ?s" by code_simp
  have h2: "prepare envGood optsYes = Ok () (appOf (prepare envGood optsYes))" by code_simp
  have h3: "yes optsYes" by code_simp
  have p: "push (options ?s) = Some False" by code_simp
  have o: "truthy (commit (options ?s))" "truthy (tag (options ?s))" "\<not> truthy (push (options ?s))"
    by code_simp+
  have g: "gitSucceeds envNoPush"
    by (simp add: gitSucceeds_def envNoPush_def envGood_def envFail_def)
  have w: "\<forall>f \<in> set ?fs. upgradeProjectVersion envNoPush (nextVersion ?s) f = None"
    by code_simp
  note th = queue_shape [OF h1]
  have n: "map name (taskQueue ?s) = [''upgradeVersion'', ''commit'', ''tag'']"
    using th [THEN conjunct1] o by simp
  from th [THEN conjunct2, THEN conjunct2]
  obtain s' a b where r: "run envNoPush optsAsk = Ok () s'"
    and t: "trace s' = trace ?s @ a @ b @ [Outro ''Done'']"
    and a: "filter isGitCall a = []" and b: "list_all isGitCall b"
    and f: "gitSucceeds envNoPush \<and> (\<forall>f \<in> set ?fs. upgradeProjectVersion envNoPush (nextVersion ?s) f = None)
            \<longrightarrow> map stepOf b = tl (map name (taskQueue ?s))"
    by (elim exE conjE) (rule that)
  have t': "trace (appOf (run envNoPush optsAsk)) = trace ?s @ a @ b @ [Outro ''Done'']"
    using r t by simp
  have m: "map stepOf b = [''commit'', ''tag'']" using f g w n by simp
  have e: "\<exists>a b. trace (appOf (run envNoPush optsAsk)) = trace ?s @ a @ b @ [Outro ''Done'']
            \<and> filter isGitCall a = [] \<and> list_all isGitCall b
            \<and> map stepOf b = [''commit'', ''tag'']"
    by (rule exI [where x = a], rule exI [where x = b]) (intro conjI t' a b m)
  have y: "map name (taskQueue (appOf (prepare envGood optsYes))) = [''upgradeVersion'', ''commit'', ''tag'', ''push'']"
    using queue_shape [OF h2, THEN conjunct2, THEN conjunct1] h3 by (rule mp)
  show ?thesis by (intro conjI h1 p n g e h2 h3 y)
qed

text \<open>
  Claim C4 (partial failure of the version update). In every run that reaches the loop,
  executing the first task of the queue, the version update, starts a write for every
  discovered file; afterwards \<open>modifiedFiles\<close> holds exactly the paths of the files whose
  write succeeded (as a multiset: their order is the order of completion), and the status
  is failed exactly when the write of some file failed.
\<close>

theorem upgrade_partial_failure:
  assumes "prepare env opts = Ok u s"
  shows "(let fs = findProjectFiles env (dir opts) (excludes opts) (Some (recursive opts));
              v = nextVersion s;
              s' = exec env (hd (taskQueue s)) s
          in hd (taskQueue s) = UpgradeVersionTask v fs (dir opts)
             \<and> filter isUpgradeCall (trace s') = map (UpgradeCall v) fs
             \<and> mset (modifiedFiles s') =
                 mset (map path (filter (\<lambda>f. upgradeProjectVersion env v f = None) fs))
             \<and> (taskStatus s' = Failed \<longleftrightarrow> (\<exists>f \<in> set fs. upgradeProjectVersion env v f \<noteq> None)))"
proof -
  let ?fs = "findProjectFiles env (dir opts) (excludes opts) (Some (recursive opts))"
  let ?up = "UpgradeVersionTask (nextVersion s) ?fs (dir opts)"
  have h: "hd (taskQueue s) = ?up" by (simp add: prepare_Ok(1) [OF assms])
  obtain es where es: "trace (exec env ?up s) = trace s @ map (UpgradeCall (nextVersion s)) ?fs @ es"
    "filter isUpgradeCall es = []"
    using exec_upgrade_trace by blast
  have t: "filter isUpgradeCall (trace (exec env ?up s)) = map (UpgradeCall (nextVersion s)) ?fs"
    using es prepare_trace(2) [of env opts] assms by (simp del: exec.simps)
  have m: "mset (modifiedFiles (exec env ?up s)) =
      mset (map path (filter (\<lambda>f. upgradeProjectVersion env (nextVersion s) f = None) ?fs))"
    using exec_upgrade_modified [of env "nextVersion s" ?fs "dir opts" s] prepare_Ok(3) [OF assms]
    by (simp del: exec.simps)
  have st: "taskStatus (exec env ?up s) = Failed \<longleftrightarrow>
      (\<exists>f \<in> set ?fs. upgradeProjectVersion env (nextVersion s) f \<noteq> None)"
    using exec_upgrade_status [of env "nextVersion s" ?fs "dir opts" s] prepare_Ok(2) [OF assms]
    by (simp del: exec.simps)
  show ?thesis unfolding Let_def h using t m st by blast
qed

text \<open>The theorem at three files of which the second fails.\<close>

theorem upgrade_partial_failure_witness:
  "prepare envFail optsYes = Ok () (appOf (prepare envFail optsYes))
   \<and> hd (taskQueue (appOf (prepare envFail optsYes))) = UpgradeVersionTask ''2.1.0'' [pkg, cargo, pom] ''.''
   \<and> filter isUpgradeCall (trace (exec envFail (hd (taskQueue (appOf (prepare envFail optsYes))))
         (appOf (prepare envFail optsYes))))
       = map (UpgradeCall ''2.1.0'') [pkg, cargo, pom]
   \<and> mset (modifiedFiles (exec envFail (hd (taskQueue (appOf (prepare envFail optsYes))))
         (appOf (prepare envFail optsYes))))
       = mset [''package.json'', ''pom.xml'']
   \<and> taskStatus (exec envFail (hd (taskQueue (appOf (prepare envFail optsYes))))
         (appOf (prepare envFail optsYes))) = Failed"
proof -
  have h: "prepare envFail optsYes = Ok () (appOf (prepare envFail optsYes))" by code_simp
  have e1: "findProjectFiles envFail (dir optsYes) (excludes optsYes) (Some (recursive optsYes))
      = [pkg, cargo, pom]" by code_simp
  have e2: "nextVersion (appOf (prepare envFail optsYes)) = ''2.1.0''" by code_simp
  have e3: "map path (filter (\<lambda>f. upgradeProjectVersion envFail ''2.1.0'' f = None) [pkg, cargo, pom])
      = [''package.json'', ''pom.xml'']" by code_simp
  have e4: "\<exists>f \<in> set [pkg, cargo, pom]. upgradeProjectVersion envFail ''2.1.0'' f \<noteq> None" by code_simp
  have e5: "dir optsYes = ''.''" by code_simp
  note t = upgrade_partial_failure [OF h, unfolded Let_def e1 e2, unfolded e3 e5]
  from t e4 have "taskStatus (exec envFail (hd (taskQueue (appOf (prepare envFail optsYes))))
         (appOf (prepare envFail optsYes))) = Failed" by blast
  then show ?thesis using h t by blast
qed

text \<open>
  Claim C5, as stated, fails: without \<open>--yes\<close> and with the commit step explicitly set to
  false the gate asks, and the answer replaces the value that was set.
\<close>

theorem gate_prompts_on_false_counterexample:
  "\<not> yes optsAsk \<and> commit optsAsk = Some False \<and>
   ConfirmCall ''should commit?'' \<in> set (trace (appOf (run envGood optsAsk))) \<and>
   commit (options (appOf (run envGood optsAsk))) = Some True"
  by code_simp

text \<open>
  Claim C5, amended. Without \<open>--yes\<close>, a step whose option is already true is queued with no
  prompt and no other effect. A step whose option is false or absent is asked about; the
  operator's answer replaces the value of the option, and the step is queued exactly when
  the answer is yes.
\<close>

theorem gate_uses_true_option:
  "\<not> y \<longrightarrow>
     (getOpt nm (options s) = Some True \<longrightarrow>
        confirmAndSet env y nm msg task s = Ok () (snd (addTask task s))) \<and>
     (getOpt nm (options s) \<noteq> Some True \<longrightarrow>
        (\<exists>es. trace (appOf (confirmAndSet env y nm msg task s)) = trace s @ ConfirmCall msg # es) \<and>
        (confirm env msg = Answer b \<longrightarrow>
           (\<exists>s'. confirmAndSet env y nm msg task s = Ok () s'
              \<and> getOpt nm (options s') = Some b
              \<and> options s' = setOpt nm (Some b) (options s)
              \<and> taskQueue s' = taskQueue s @ (if b then [task] else [])
              \<and> trace s' = trace s @ [ConfirmCall msg])))"
  by (auto simp: confirmAndSet_def Let_def handleUserCancel_case truthy_def setOpt_getOpt
      split: PromptResult.splits)

text \<open>
  The amended claim at a tag step set to true, at a commit step set to false and answered
  with yes, and at a push step left out and answered with no.
\<close>

theorem gate_uses_true_option_witness:
  "getOpt TagStep (options (newApp optsAsk)) = Some True
   \<and> confirmAndSet envNoPush False TagStep ''should create tag?'' (PushTask False) (newApp optsAsk)
       = Ok () (snd (addTask (PushTask False) (newApp optsAsk)))
   \<and> getOpt CommitStep (options (newApp optsAsk)) = Some False
   \<and> confirm envNoPush ''should commit?'' = Answer True
   \<and> (\<exists>s'. confirmAndSet envNoPush False CommitStep ''should commit?'' (PushTask False) (newApp optsAsk)
             = Ok () s'
          \<and> getOpt CommitStep (options s') = Some True
          \<and> options s' = setOpt CommitStep (Some True) (options (newApp optsAsk))
          \<and> taskQueue s' = [PushTask False]
          \<and> trace s' = [ConfirmCall ''should commit?''])
   \<and> getOpt PushStep (options (newApp optsAsk)) = None
   \<and> confirm envNoPush ''should push to remote?'' = Answer False
   \<and> (\<exists>s'. confirmAndSet envNoPush False PushStep ''should push to remote?'' (PushTask False) (newApp optsAsk)
             = Ok () s'
          \<and> getOpt PushStep (options s') = Some False
          \<and> options s' = setOpt PushStep (Some False) (options (newApp optsAsk))
          \<and> taskQueue s' = []
          \<and> trace s' = [ConfirmCall ''should push to remote?''])"
proof -
  let ?s = "newApp optsAsk"
  have ny: "\<not> False" by simp
  have h1: "getOpt TagStep (options ?s) = Some True" by code_simp
  have h2: "getOpt CommitStep (options ?s) = Some False" by code_simp
  have h3: "confirm envNoPush ''should commit?'' = Answer True" by code_simp
  have h4: "getOpt PushStep (options ?s) = None" by code_simp
  have h5: "confirm envNoPush ''should push to remote?'' = Answer False" by code_simp
  have n2: "getOpt CommitStep (options ?s) \<noteq> Some True" unfolding h2 by simp
  have n4: "getOpt PushStep (options ?s) \<noteq> Some True" unfolding h4 by simp
  have q: "taskQueue ?s = []" "trace ?s = []" by simp_all
  note c1 = gate_uses_true_option [where y = False and nm = TagStep and s = ?s and env = envNoPush
      and msg = "''should create tag?''" and task = "PushTask False",
      THEN mp, OF ny, THEN conjunct1, THEN mp, OF h1]
  note c2 = gate_uses_true_option [where y = False and nm = CommitStep and s = ?s and env = envNoPush
      and msg = "''should commit?''" and task = "PushTask False" and b = True,
      THEN mp, OF ny, THEN conjunct2, THEN mp, OF n2, THEN conjunct2, THEN mp, OF h3,
      unfolded q if_True append_Nil]
  note c3 = gate_uses_true_option [where y = False and nm = PushStep and s = ?s and env = envNoPush
      and msg = "''should push to remote?''" and task = "PushTask False" and b = False,
      THEN mp, OF ny, THEN conjunct2, THEN mp, OF n4, THEN conjunct2, THEN mp, OF h5,
      unfolded q if_False append_Nil]
  show ?thesis by (intro conjI h1 c1 h2 h3 c2 h4 h5 c3)
qed

text \<open>
  Claim C7, as stated, fails: with the \<open>recursive\<close> option set, the discovery call of the
  version resolution is the same as without it and carries no third argument. Where only
  a recursive discovery finds the main project file, the run ends with the error that
  it is not in the project root.
\<close>

theorem resolver_discovery_not_recursive_counterexample:
  "recursive optsYes \<and>
   filter isFindCall (trace (appOf (getNextVersion envDeep (start (newApp optsYes)))))
     = [FindProjectFilesCall ''.'' [] None] \<and>
   filter isFindCall (trace (appOf (getNextVersion envDeep (start (newApp (optsYes\<lparr>recursive := False\<rparr>))))))
     = [FindProjectFilesCall ''.'' [] None] \<and>
   run envDeep (optsYes\<lparr>main := ''rust''\<rparr>)
     = Throw ''can't found rust project file in the project root''
         (appOf (run envDeep (optsYes\<lparr>main := ''rust''\<rparr>)))"
  by code_simp

text \<open>
  Claim C7, amended. The discovery call of the version resolution passes the directory
  and the exclusion patterns and never the \<open>recursive\<close> option; the discovery call of
  \<open>#getProjects\<close>, which finds the files to update, passes all three.
\<close>

theorem resolver_discovery_call:
  "(\<exists>es. trace (appOf (getNextVersion env s)) = trace s @ es \<and>
      filter isFindCall es = [FindProjectFilesCall (dir (options s)) (excludes (options s)) None]) \<and>
   trace (getProjects env s')
     = trace s' @ [FindProjectFilesCall (dir (options s')) (excludes (options s'))
                     (Some (recursive (options s')))]"
  using getNextVersion_trace [of env s] by auto

text \<open>
  Claim C8 (cancellation at the commit gate). When the version has been resolved, \<open>--yes\<close>
  is off, the commit option is not true and the operator cancels the confirmation of the
  commit step, the run exits with the cancellation code. The only confirmation asked for
  is the one of the commit step, the tag and push options are as they were supplied, the
  queue holds the version update alone, and no file write and no version-control call has
  been made.
\<close>

theorem cancel_at_commit_gate:
  assumes "getNextVersion env (start (newApp opts)) = Ok u s1"
    and "\<not> yes opts" and "\<not> truthy (commit opts)"
    and "confirm env ''should commit?'' = Cancelled"
  shows "\<exists>s. run env opts = Exit Canceled s
           \<and> filter isConfirmCall (trace s) = [ConfirmCall ''should commit?'']
           \<and> last (trace s) = CancelNotice ''User cancel''
           \<and> map name (taskQueue s) = [''upgradeVersion'']
           \<and> filter isUpgradeCall (trace s) = [] \<and> filter isGitCall (trace s) = []
           \<and> tag (options s) = tag opts \<and> push (options s) = push opts"
proof -
  let ?s0 = "start (newApp opts)"
  let ?s2 = "getProjects env s1"
  note k = getNextVersion_keeps [OF assms(1)]
  have o: "options s1 = opts" using k(1) by simp
  obtain es where es: "trace s1 = trace ?s0 @ es" "filter isGitCall es = []"
    "filter isUpgradeCall es = []" "filter isConfirmCall es = []"
    using getNextVersion_trace [of env ?s0] assms(1) by auto
  let ?s3 = "emit (CancelNotice ''User cancel'') (emit (ConfirmCall ''should commit?'') ?s2)"
  have c: "confirmReleaseOptions env ?s2 = Exit Canceled ?s3"
    using assms(2-4) o by (simp add: confirmReleaseOptions_def confirmAndSet_def Let_def)
  then have r: "run env opts = Exit Canceled ?s3"
    using assms(1) by (simp add: run_def execute_def prepare_def)
  have f: "filter isConfirmCall (trace ?s3) = [ConfirmCall ''should commit?'']"
    "filter isUpgradeCall (trace ?s3) = []" "filter isGitCall (trace ?s3) = []"
    using es by (simp_all add: start_trace)
  have q: "map name (taskQueue ?s3) = [''upgradeVersion'']" using k(2) by simp
  have p: "tag (options ?s3) = tag opts" "push (options ?s3) = push opts" using o by simp_all
  have l: "last (trace ?s3) = CancelNotice ''User cancel''" by simp
  show ?thesis
    by (rule exI [where x = ?s3]) (intro conjI r f q p l)
qed

text \<open>The theorem at collaborators that cancel every confirmation.\<close>

theorem cancel_at_commit_gate_witness:
  "getNextVersion envCancel (start (newApp optsAsk))
     = Ok () (appOf (getNextVersion envCancel (start (newApp optsAsk))))
   \<and> \<not> yes optsAsk \<and> \<not> truthy (commit optsAsk)
   \<and> confirm envCancel ''should commit?'' = Cancelled
   \<and> (\<exists>s. run envCancel optsAsk = Exit Canceled s
           \<and> filter isConfirmCall (trace s) = [ConfirmCall ''should commit?'']
           \<and> last (trace s) = CancelNotice ''User cancel''
           \<and> map name (taskQueue s) = [''upgradeVersion'']
           \<and> filter isUpgradeCall (trace s) = [] \<and> filter isGitCall (trace s) = []
           \<and> tag (options s) = tag optsAsk \<and> push (options s) = push optsAsk)"
proof -
  have h1: "getNextVersion envCancel (start (newApp optsAsk))
     = Ok () (appOf (getNextVersion envCancel (start (newApp optsAsk))))" by code_simp
  have h2: "\<not> yes optsAsk" by code_simp
  have h3: "\<not> truthy (commit optsAsk)" by code_simp
  have h4: "confirm envCancel ''should commit?'' = Cancelled" by code_simp
  show ?thesis
    by (intro conjI h1 h2 h3 h4 cancel_at_commit_gate [OF h1 h2 h3 h4])
qed

text \<open>
  Claim C9 (the tag's message). Whenever a run calls \<open>gitTag\<close>, the message it passes is the
  commit template expanded with the next version by \<open>formatMessageString\<close>, its tag name is
  \<open>v\<close> followed by the next version, and every \<open>gitCommit\<close> call of the run passes the same
  message.
\<close>

theorem tag_message_is_commit_message:
  assumes "GitTagCall d m t \<in> set (trace (appOf (run env opts)))"
  shows "m = formatMessageString (template (resolveAltCommit env opts)) (nextVersion (appOf (run env opts)))
         \<and> t = ''v'' @ nextVersion (appOf (run env opts))
         \<and> (\<forall>d' m' fs a v. GitCommitCall d' m' fs a v \<in> set (trace (appOf (run env opts))) \<longrightarrow> m' = m)"
proof -
  note a = run_agrees [of opts env, unfolded list_all_iff]
  have 1: "m = formatMessageString (template (resolveAltCommit env opts)) (nextVersion (appOf (run env opts)))
      \<and> t = ''v'' @ nextVersion (appOf (run env opts))"
    using a assms by (force simp: agrees_def)
  have "m' = m" if "GitCommitCall d' m' fs a' v \<in> set (trace (appOf (run env opts)))" for d' m' fs a' v
    using a that 1 by (force simp: agrees_def)
  then show ?thesis using 1 by blast
qed


text \<open>The theorem at a run that commits and tags.\<close>

theorem tag_message_is_commit_message_witness:
  "GitTagCall False ''chore: release v2.1.0'' ''v2.1.0'' \<in> set (trace (appOf (run envGood optsYes)))
   \<and> ''chore: release v2.1.0''
       = formatMessageString (template (resolveAltCommit envGood optsYes))
           (nextVersion (appOf (run envGood optsYes)))
   \<and> ''v2.1.0'' = ''v'' @ nextVersion (appOf (run envGood optsYes))
   \<and> GitCommitCall False ''chore: release v2.1.0'' [''pom.xml'', ''Cargo.toml'', ''package.json'']
         False True \<in> set (trace (appOf (run envGood optsYes)))"
proof -
  have h: "GitTagCall False ''chore: release v2.1.0'' ''v2.1.0'' \<in> set (trace (appOf (run envGood optsYes)))"
    by code_simp
  have g: "GitCommitCall False ''chore: release v2.1.0'' [''pom.xml'', ''Cargo.toml'', ''package.json'']
         False True \<in> set (trace (appOf (run envGood optsYes)))"
    by code_simp
  show ?thesis
    by (intro conjI h g tag_message_is_commit_message [OF h, THEN conjunct1]
        tag_message_is_commit_message [OF h, THEN conjunct2, THEN conjunct1])
qed



text \<open>
  Claim C6, as stated, fails: the template \<open>%%s\<close> holds the placeholder, and with the
  version \<open>s\<close> the result is \<open>%s\<close>.
\<close>

theorem format_leaves_placeholder_counterexample:
  "includesStr ''%%s'' ''%s'' \<and> formatMessageString ''%%s'' ''s'' = ''%s'' \<and>
   includesStr (formatMessageString ''%%s'' ''s'') ''%s''"
  by code_simp

text \<open>
  Claim C6, amended. For every template that holds the placeholder and every version
  without a dollar sign, the template is a sequence of pieces free of the placeholder
  with \<open>%s\<close> between them, and the result is the same pieces with the version between
  them. If moreover the version is not empty, does not begin with \<open>s\<close>, does not end with
  \<open>%\<close> and does not hold the placeholder itself, the result holds no placeholder.
\<close>

theorem format_replaces_placeholders:
  assumes "includesStr T ''%s''" and "CHR ''$'' \<notin> set V"
  shows "\<exists>segs. T = join ''%s'' segs \<and> (\<forall>seg \<in> set segs. \<not> includesStr seg ''%s'')
           \<and> formatMessageString T V = join V segs
           \<and> (V \<noteq> [] \<and> hd V \<noteq> CHR ''s'' \<and> last V \<noteq> CHR ''%'' \<and> \<not> includesStr V ''%s''
                \<longrightarrow> \<not> includesStr (formatMessageString T V) ''%s'')"
proof -
  obtain segs where segs: "T = join ''%s'' segs" "\<forall>seg \<in> set segs. \<not> includesStr seg ''%s''"
    "replaceAll_from ''%s'' V [] T = join V segs"
    using replaceAll_from_segments [OF assms(2)] by blast
  have f: "formatMessageString T V = join V segs"
    using assms(1) segs(3) by (simp add: formatMessageString_def replaceAll_def)
  have "\<not> includesStr (formatMessageString T V) ''%s''"
    if "V \<noteq> [] \<and> hd V \<noteq> CHR ''s'' \<and> last V \<noteq> CHR ''%'' \<and> \<not> includesStr V ''%s''"
    unfolding f using join_no_placeholder [OF segs(2)] that by blast
  then show ?thesis using segs(1,2) f by blast
qed

text \<open>The amended claim at a template with two placeholders.\<close>

theorem format_replaces_placeholders_witness:
  "includesStr ''release %s, tag v%s'' ''%s'' \<and> CHR ''$'' \<notin> set ''2.1.0''
   \<and> ''release %s, tag v%s'' = join ''%s'' [''release '', '', tag v'', []]
   \<and> formatMessageString ''release %s, tag v%s'' ''2.1.0'' = join ''2.1.0'' [''release '', '', tag v'', []]
   \<and> (''2.1.0'' \<noteq> [] \<and> hd ''2.1.0'' \<noteq> CHR ''s'' \<and> last ''2.1.0'' \<noteq> CHR ''%''
        \<and> \<not> includesStr ''2.1.0'' ''%s'')
   \<and> \<not> includesStr (formatMessageString ''release %s, tag v%s'' ''2.1.0'') ''%s''"
proof -
  have h1: "includesStr ''release %s, tag v%s'' ''%s''" by code_simp
  have h2: "CHR ''$'' \<notin> set ''2.1.0''" by code_simp
  have h3: "''2.1.0'' \<noteq> [] \<and> hd ''2.1.0'' \<noteq> CHR ''s'' \<and> last ''2.1.0'' \<noteq> CHR ''%''
        \<and> \<not> includesStr ''2.1.0'' ''%s''" by code_simp
  have e1: "''release %s, tag v%s'' = join ''%s'' [''release '', '', tag v'', []]" by code_simp
  have e2: "formatMessageString ''release %s, tag v%s'' ''2.1.0''
      = join ''2.1.0'' [''release '', '', tag v'', []]" by code_simp
  from format_replaces_placeholders [OF h1 h2] h3
  have c: "\<not> includesStr (formatMessageString ''release %s, tag v%s'' ''2.1.0'') ''%s''" by blast
  show ?thesis by (intro conjI h1 h2 h3 e1 e2 c)
qed

end
